theory Spec2Isabelle
  imports Main "HOL-Library.Word" "HOL-Library.Signed_Division"
begin

section \<open>Errors\<close>

text \<open>
  The program is built without \<^verbatim>\<open>NDEBUG\<close> (see the Makefile), so a failed
  \<^verbatim>\<open>assert\<close> aborts it. Reading a vector outside its bounds is undefined behaviour,
  and \<^verbatim>\<open>push_back\<close> beyond the largest size a vector can have throws. Each is an
  error value of the model; a function that can meet one returns \<open>error + 'a\<close>.
\<close>

datatype error = AssertFail | OutOfBounds | LengthError

section \<open>Epoller: the wrapper around the readiness facility\<close>

text \<open>
  \<^verbatim>\<open>Epoller\<close> (src/code/server/epoller.cpp) owns one epoll descriptor. The kernel side
  of that descriptor is its interest list, a map from registered descriptors to their
  event masks (\<^verbatim>\<open>uint32_t\<close>). Every \<^verbatim>\<open>epoll_ctl\<close> system call the wrapper issues is
  appended to \<open>ctl_log\<close>, so that "no call was issued" is a statement about the state.
\<close>

datatype ctl_op = EPOLL_CTL_ADD | EPOLL_CTL_MOD | EPOLL_CTL_DEL

record Epoller =
  interest :: "int \<rightharpoonup> 32 word"
  ctl_log :: "(ctl_op \<times> int \<times> 32 word) list"

text \<open>
  The system call itself, as epoll\_ctl(2) describes it: adding a descriptor that is
  already registered fails, modifying or deleting one that is not registered fails, and
  a negative descriptor is never valid. It returns 0 on success and -1 on failure.
\<close>

definition epoll_ctl :: "Epoller \<Rightarrow> ctl_op \<Rightarrow> int \<Rightarrow> 32 word \<Rightarrow> int \<times> Epoller" where
  "epoll_ctl e opr fd ev =
     (let e' = e\<lparr>ctl_log := ctl_log e @ [(opr, fd, ev)]\<rparr> in
      case opr of
        EPOLL_CTL_ADD \<Rightarrow>
          (if fd < 0 \<or> interest e fd \<noteq> None then (- 1, e')
           else (0, e'\<lparr>interest := (interest e)(fd \<mapsto> ev)\<rparr>))
      | EPOLL_CTL_MOD \<Rightarrow>
          (if fd < 0 \<or> interest e fd = None then (- 1, e')
           else (0, e'\<lparr>interest := (interest e)(fd \<mapsto> ev)\<rparr>))
      | EPOLL_CTL_DEL \<Rightarrow>
          (if fd < 0 \<or> interest e fd = None then (- 1, e')
           else (0, e'\<lparr>interest := (interest e)(fd := None)\<rparr>)))"

definition AddFd :: "Epoller \<Rightarrow> int \<Rightarrow> 32 word \<Rightarrow> bool \<times> Epoller" where
  "AddFd e fd events =
     (if fd < 0 then (False, e)
      else (case epoll_ctl e EPOLL_CTL_ADD fd events of (r, e') \<Rightarrow> (0 = r, e')))"

definition ModFd :: "Epoller \<Rightarrow> int \<Rightarrow> 32 word \<Rightarrow> bool \<times> Epoller" where
  "ModFd e fd events =
     (if fd < 0 then (False, e)
      else (case epoll_ctl e EPOLL_CTL_MOD fd events of (r, e') \<Rightarrow> (0 = r, e')))"

text \<open>\<^verbatim>\<open>DelFd\<close> passes a zero-initialised \<^verbatim>\<open>epoll_event\<close>.\<close>

definition DelFd :: "Epoller \<Rightarrow> int \<Rightarrow> bool \<times> Epoller" where
  "DelFd e fd =
     (if fd < 0 then (False, e)
      else (case epoll_ctl e EPOLL_CTL_DEL fd 0 of (r, e') \<Rightarrow> (0 = r, e')))"

section \<open>Buffer: the growable byte buffer\<close>

text \<open>
  \<^verbatim>\<open>Buffer\<close> (src/unnamed/part\_000) is a \<^verbatim>\<open>std::vector<char>\<close> with a read and a write
  cursor. The member names lose their trailing underscore. Sizes are natural numbers:
  no property proved below depends on a \<^verbatim>\<open>size_t\<close> overflowing here.
\<close>

type_synonym byte = "8 word"

record Buffer =
  buffer :: "byte list"
  readPos :: nat
  writePos :: nat

definition ReadableBytes :: "Buffer \<Rightarrow> nat" where
  "ReadableBytes b = writePos b - readPos b"

definition WritableBytes :: "Buffer \<Rightarrow> nat" where
  "WritableBytes b = length (buffer b) - writePos b"

definition PrependableBytes :: "Buffer \<Rightarrow> nat" where
  "PrependableBytes b = readPos b"

text \<open>The readable span \<^verbatim>\<open>[Peek(), Peek() + ReadableBytes())\<close>, as a byte list.\<close>

definition readable :: "Buffer \<Rightarrow> byte list" where
  "readable b = take (ReadableBytes b) (drop (readPos b) (buffer b))"

text \<open>
  Writing the bytes \<open>xs\<close> into the vector from offset \<open>pos\<close> on, as
  \<^verbatim>\<open>std::copy(src, src + n, BeginPtr_() + pos)\<close> and the kernel's transfer into an
  \<^verbatim>\<open>iovec\<close> do. The vector keeps its size; a write that would run past its end is a
  write outside the vector, an error of the model.
\<close>

definition copy_to :: "byte list \<Rightarrow> nat \<Rightarrow> byte list \<Rightarrow> error + byte list" where
  "copy_to v pos xs =
     (if pos + length xs \<le> length v
      then Inr (take pos v @ xs @ drop (pos + length xs) v)
      else Inl OutOfBounds)"

text \<open>
  Reading the range \<^verbatim>\<open>[BeginPtr_() + lo, BeginPtr_() + hi)\<close> of the vector; a
  range that is not inside the vector is an error of the model.
\<close>

definition read_range :: "byte list \<Rightarrow> nat \<Rightarrow> nat \<Rightarrow> error + byte list" where
  "read_range v lo hi =
     (if lo \<le> hi \<and> hi \<le> length v
      then Inr (take (hi - lo) (drop lo v))
      else Inl OutOfBounds)"

text \<open>\<^verbatim>\<open>buffer_.resize(n)\<close>: new elements are value-initialised to zero.\<close>

definition resize :: "byte list \<Rightarrow> nat \<Rightarrow> byte list" where
  "resize v n = take n v @ replicate (n - length v) 0"

text \<open>
  \<^verbatim>\<open>MakeSpace_\<close> grows the vector or moves the readable span to the front; the
  second branch ends with \<^verbatim>\<open>assert(readable == ReadableBytes())\<close>.
\<close>

definition MakeSpace :: "Buffer \<Rightarrow> nat \<Rightarrow> error + Buffer" where
  "MakeSpace b len =
     (if WritableBytes b + PrependableBytes b < len
      then Inr (b\<lparr>buffer := resize (buffer b) (writePos b + len + 1)\<rparr>)
      else (let rd = ReadableBytes b in
            case read_range (buffer b) (readPos b) (writePos b) of
              Inl e \<Rightarrow> Inl e
            | Inr src \<Rightarrow>
                (case copy_to (buffer b) 0 src of
                   Inl e \<Rightarrow> Inl e
                 | Inr v \<Rightarrow>
                     (let b' = b\<lparr>buffer := v, readPos := 0, writePos := 0 + rd\<rparr>
                      in if rd = ReadableBytes b' then Inr b' else Inl AssertFail))))"

text \<open>\<^verbatim>\<open>EnsureWriteable\<close> ends with \<^verbatim>\<open>assert(WritableBytes() >= len)\<close>.\<close>

definition EnsureWriteable :: "Buffer \<Rightarrow> nat \<Rightarrow> error + Buffer" where
  "EnsureWriteable b len =
     (case (if WritableBytes b < len then MakeSpace b len else Inr b) of
        Inl e \<Rightarrow> Inl e
      | Inr b' \<Rightarrow> if WritableBytes b' \<ge> len then Inr b' else Inl AssertFail)"

definition HasWritten :: "Buffer \<Rightarrow> nat \<Rightarrow> Buffer" where
  "HasWritten b len = b\<lparr>writePos := writePos b + len\<rparr>"

text \<open>
  \<^verbatim>\<open>Append(const char *str, size_t len)\<close>: make room, copy to the write cursor,
  advance the cursor. Its \<^verbatim>\<open>assert(str)\<close> tests the pointer; the only caller modelled
  passes the address of the staging array.
\<close>

definition Append :: "Buffer \<Rightarrow> byte list \<Rightarrow> error + Buffer" where
  "Append b str =
     (case EnsureWriteable b (length str) of
        Inl e \<Rightarrow> Inl e
      | Inr b1 \<Rightarrow>
          (case copy_to (buffer b1) (writePos b1) str of
             Inl e \<Rightarrow> Inl e
           | Inr v \<Rightarrow> Inr (HasWritten (b1\<lparr>buffer := v\<rparr>) (length str))))"

text \<open>
  The kernel's side of \<^verbatim>\<open>readv(fd, iov, 2)\<close>: either the call fails with an error
  code and transfers nothing, or the descriptor has the bytes \<open>avail\<close> ready and the
  call delivers as many of them as the two segments hold, filling the first segment
  before the second.
\<close>

datatype kernel_read = Fails int | Ready "byte list"

definition stage_size :: nat where
  "stage_size = 65535"

record readv_result =
  delivered :: "byte list"
  into_tail :: "byte list"
  into_stage :: "byte list"

definition readv :: "nat \<Rightarrow> nat \<Rightarrow> byte list \<Rightarrow> readv_result" where
  "readv len0 len1 avail =
     (let d = take (len0 + len1) avail in
      \<lparr>delivered = d, into_tail = take len0 d, into_stage = drop len0 d\<rparr>)"

text \<open>
  \<^verbatim>\<open>ReadFd\<close> returns the \<^verbatim>\<open>ssize_t\<close> result, the value left in \<^verbatim>\<open>*saveErrno\<close>
  (written only on failure; \<open>saveErrno0\<close> is what it held before) and the buffer. The
  kernel writes the first segment straight into the vector's tail.
\<close>

record ReadFd_result =
  ret :: int
  saveErrno :: int
  buf :: Buffer

definition ReadFd :: "Buffer \<Rightarrow> int \<Rightarrow> kernel_read \<Rightarrow> error + ReadFd_result" where
  "ReadFd b saveErrno0 k =
     (let writable = WritableBytes b in
      case k of
        Fails errno \<Rightarrow> Inr \<lparr>ret = - 1, saveErrno = errno, buf = b\<rparr>
      | Ready avail \<Rightarrow>
          (let r = readv writable stage_size avail;
               len = length (delivered r)
           in case copy_to (buffer b) (writePos b) (into_tail r) of
                Inl e \<Rightarrow> Inl e
              | Inr v \<Rightarrow>
                  (let b1 = b\<lparr>buffer := v\<rparr>
                   in if len \<le> writable
                      then Inr \<lparr>ret = int len, saveErrno = saveErrno0,
                                buf = b1\<lparr>writePos := writePos b1 + len\<rparr>\<rparr>
                      else (case Append (b1\<lparr>writePos := length (buffer b1)\<rparr>)
                                        (take (len - writable) (into_stage r)) of
                              Inl e \<Rightarrow> Inl e
                            | Inr b2 \<Rightarrow>
                                Inr \<lparr>ret = int len, saveErrno = saveErrno0, buf = b2\<rparr>))))"

text \<open>The cursor invariant of the data model: \<open>read_pos \<le> write_pos \<le> capacity\<close>.\<close>

definition buffer_ok :: "Buffer \<Rightarrow> bool" where
  "buffer_ok b \<longleftrightarrow> readPos b \<le> writePos b \<and> writePos b \<le> length (buffer b)"

section \<open>ThreadPool: the worker loop\<close>

text \<open>
  \<^verbatim>\<open>ThreadPool::Pool\<close> (src/code/pool/threadpool.h): the closed flag and the task
  queue, both protected by \<^verbatim>\<open>mtx\<close>.
\<close>

record 'task Pool =
  isClosed :: bool
  tasks :: "'task list"

text \<open>
  Where a worker thread stands: before its first lock or after \<^verbatim>\<open>task()\<close> or a wake-up,
  waiting for the mutex (\<open>Relock\<close>); at the head of the loop body, holding the mutex
  (\<open>Head\<close>); running a task with the mutex released; inside \<^verbatim>\<open>cond.wait\<close>; or out of
  the loop.
\<close>

datatype 'task wstate = Relock | Head | Running 'task | Waiting | Exited

text \<open>
  One pass through the loop body, made while the worker holds the mutex: take the front
  task, or break when the queue is empty and the pool closed, or wait.
\<close>

definition worker_iter :: "'task Pool \<Rightarrow> 'task wstate \<times> 'task Pool" where
  "worker_iter p =
     (if tasks p \<noteq> [] then (Running (hd (tasks p)), p\<lparr>tasks := tl (tasks p)\<rparr>)
      else if isClosed p then (Exited, p)
      else (Waiting, p))"

text \<open>
  The loop of one worker while no other thread touches the pool: it returns the tasks
  the worker has run, in order, where the loop stops (out of the loop, or inside
  \<^verbatim>\<open>cond.wait\<close>) and the pool it leaves. A task is an opaque value; running it does
  not add tasks.
\<close>

function worker_loop :: "'task Pool \<Rightarrow> 'task list \<times> 'task wstate \<times> 'task Pool" where
  "worker_loop p =
     (case worker_iter p of
        (w, p') \<Rightarrow>
          (case w of
             Running t \<Rightarrow> (case worker_loop p' of (ts, w', p'') \<Rightarrow> (t # ts, w', p''))
           | Relock \<Rightarrow> ([], w, p')
           | Head \<Rightarrow> ([], w, p')
           | Waiting \<Rightarrow> ([], w, p')
           | Exited \<Rightarrow> ([], w, p')))"
  by pat_completeness auto
termination
proof (relation "measure (\<lambda>p. length (tasks p))", goal_cases)
  case 1
  then show ?case by simp
next
  case 2
  then show ?case by (auto simp: worker_iter_def split: if_splits)
qed

declare worker_loop.simps [simp del]

record 'task pool_system =
  pool :: "'task Pool"
  mtx_held :: bool
  workers :: "'task wstate list"

text \<open>
  The interleavings of the workers with \<^verbatim>\<open>AddTask\<close> and the destructor. Every step that
  reads or writes the pool is made by the thread that holds the mutex; a wake-up from
  \<^verbatim>\<open>cond.wait\<close> may come from a notification or be spurious.
\<close>

inductive pool_step :: "'task pool_system \<Rightarrow> 'task pool_system \<Rightarrow> bool" where
  lock: "i < length (workers c) \<Longrightarrow> workers c ! i = Relock \<Longrightarrow> \<not> mtx_held c \<Longrightarrow>
         pool_step c (c\<lparr>mtx_held := True, workers := (workers c)[i := Head]\<rparr>)"
| body: "i < length (workers c) \<Longrightarrow> workers c ! i = Head \<Longrightarrow> worker_iter (pool c) = (w, p') \<Longrightarrow>
         pool_step c (c\<lparr>pool := p', mtx_held := False, workers := (workers c)[i := w]\<rparr>)"
| task_done: "i < length (workers c) \<Longrightarrow> workers c ! i = Running t \<Longrightarrow>
         pool_step c (c\<lparr>workers := (workers c)[i := Relock]\<rparr>)"
| wake: "i < length (workers c) \<Longrightarrow> workers c ! i = Waiting \<Longrightarrow>
         pool_step c (c\<lparr>workers := (workers c)[i := Relock]\<rparr>)"
| AddTask: "\<not> mtx_held c \<Longrightarrow>
         pool_step c (c\<lparr>pool := (pool c)\<lparr>tasks := tasks (pool c) @ [t]\<rparr>\<rparr>)"
| destructor: "\<not> mtx_held c \<Longrightarrow>
         pool_step c (c\<lparr>pool := (pool c)\<lparr>isClosed := True\<rparr>\<rparr>)"

section \<open>SqlConnPool: the database connection pool\<close>

text \<open>
  \<^verbatim>\<open>SqlConnPool\<close> (src/code/pool/sqlconnpool.cpp). A \<^verbatim>\<open>MYSQL*\<close> is a number, 0 for
  \<^verbatim>\<open>nullptr\<close>; \<open>semId\<close> is the value of the counting semaphore; \<open>mtx_taken\<close> says
  whether another thread holds \<^verbatim>\<open>mtx_\<close>. What a call does to the pool's
  synchronisation objects and to the log is recorded, in order, in \<open>events\<close>.
\<close>

type_synonym MYSQL_ptr = nat


datatype pool_event =
    Test_empty
  | Log_warn string
  | Sem_wait
  | Lock_mtx
  | Pop_front MYSQL_ptr
  | Unlock_mtx

record SqlConnPool =
  connQue :: "MYSQL_ptr list"
  semId :: nat
  MAX_CONN :: nat
  mtx_taken :: bool
  events :: "pool_event list"





section \<open>BlockDeque: the blocking queue\<close>

text \<open>
  \<^verbatim>\<open>BlockDeque<T>\<close> (src/unnamed/part\_000). A call of \<^verbatim>\<open>pop\<close> runs under the mutex
  until it returns or reaches \<^verbatim>\<open>condConsumer_.wait\<close>; \<open>pop_enter\<close> is the call up to
  that point and \<open>pop_wake\<close> its continuation after a wake-up, in the state the thread
  then finds.
\<close>

record 'a BlockDeque =
  deq :: "'a list"
  capacity :: nat
  isClose :: bool

datatype 'a pop_outcome = Pop_true 'a "'a BlockDeque" | Pop_false "'a BlockDeque" | Pop_waits

definition Close :: "'a BlockDeque \<Rightarrow> 'a BlockDeque" where
  "Close d = d\<lparr>deq := [], isClose := True\<rparr>"

definition pop_enter :: "'a BlockDeque \<Rightarrow> 'a pop_outcome" where
  "pop_enter d =
     (if deq d = [] then Pop_waits
      else Pop_true (hd (deq d)) (d\<lparr>deq := tl (deq d)\<rparr>))"

definition pop_wake :: "'a BlockDeque \<Rightarrow> 'a pop_outcome" where
  "pop_wake d = (if isClose d then Pop_false d else pop_enter d)"

section \<open>WebServer: accepting clients\<close>

text \<open>
  \<^verbatim>\<open>WebServer::DealListen_\<close> (src/code/server/webserver.cpp). The server's calls into
  the kernel and its collaborators are recorded as effects, in order; log lines are
  left out. \<open>conns\<close> is the set of descriptors with an installed connection.
\<close>

datatype effect =
    Send int string
  | CloseFd int
  | TimerAdd int int
  | EpollAddFd int "32 word"
  | SetFdNonblock int

record WebServer =
  userCount :: int
  conns :: "int set"
  timeoutMS :: int
  listenEvent :: "32 word"
  connEvent :: "32 word"
  effects :: "effect list"

definition EPOLLIN :: "32 word" where
  "EPOLLIN = 1"

definition EPOLLET :: "32 word" where
  "EPOLLET = push_bit 31 1"

definition SendError :: "WebServer \<Rightarrow> int \<Rightarrow> string \<Rightarrow> WebServer" where
  "SendError s fd info = s\<lparr>effects := effects s @ [Send fd info, CloseFd fd]\<rparr>"

text \<open>
  Modelled from the spec: \<^verbatim>\<open>HttpConn::init\<close>, whose source is not part of the
  repository files at hand. The data model says that constructing a connection
  increments \<open>userCount\<close>; the connection for \<open>fd\<close> is then live.
\<close>

definition HttpConn_init :: "WebServer \<Rightarrow> int \<Rightarrow> WebServer" where
  "HttpConn_init s fd = s\<lparr>userCount := userCount s + 1, conns := insert fd (conns s)\<rparr>"

definition AddClient :: "WebServer \<Rightarrow> int \<Rightarrow> WebServer" where
  "AddClient s fd =
     (let s1 = HttpConn_init s fd;
          s2 = (if timeoutMS s1 > 0
                then s1\<lparr>effects := effects s1 @ [TimerAdd fd (timeoutMS s1)]\<rparr> else s1)
      in s2\<lparr>effects := effects s2 @ [EpollAddFd fd (or EPOLLIN (connEvent s2)), SetFdNonblock fd]\<rparr>)"

text \<open>
  The accept loop. \<open>MAX_FD\<close> is declared in a header that is not among the sources, so it
  is a parameter. The list holds the values the successive calls of \<^verbatim>\<open>accept\<close>
  return; once it is used up \<^verbatim>\<open>accept\<close> returns -1. The result is the server state
  and the values not yet consumed.
\<close>

fun DealListen :: "int \<Rightarrow> WebServer \<Rightarrow> int list \<Rightarrow> WebServer \<times> int list" where
  "DealListen MAX_FD s [] = (s, [])"
| "DealListen MAX_FD s (fd # rest) =
     (if fd \<le> 0 then (s, rest)
      else if userCount s \<ge> MAX_FD then (SendError s fd ''Server busy!'', rest)
      else (let s' = AddClient s fd in
            if and (listenEvent s') EPOLLET \<noteq> 0 then DealListen MAX_FD s' rest
            else (s', rest)))"

section \<open>HeapTimer: the indexed min-heap of timers\<close>

text \<open>
  \<^verbatim>\<open>HeapTimer\<close> (heaptimer.cpp and heaptimer.h, the second and third document of
  src/code/server/webserver.cpp). A \<^verbatim>\<open>TimerNode\<close> holds its id (\<open>id_node\<close>, since
  \<open>id\<close> is taken), its deadline in ticks of the clock (nanoseconds) and its callback.
  Callbacks are opaque values of the model: running one appends it to \<open>fired\<close>, and it
  does not call back into the timer. \<open>ref\<close> is the \<^verbatim>\<open>unordered_map\<close> from ids to
  indices.
\<close>

record 'cb TimerNode =
  id_node :: int
  expires :: int
  cb :: 'cb

record 'cb HeapTimer =
  heap :: "'cb TimerNode list"
  ref :: "int \<rightharpoonup> nat"
  fired :: "'cb list"

text \<open>
  Indices are \<^verbatim>\<open>size_t\<close>: natural numbers below \<open>2^64\<close>, with every sum and difference
  the source computes reduced modulo \<open>2^64\<close> by \<open>size_t\<close>.
\<close>

definition size_t :: "int \<Rightarrow> nat" where
  "size_t k = nat (k mod 2 ^ 64)"

text \<open>
  \<^verbatim>\<open>heap_[i]\<close>. A vector never has more than \<^verbatim>\<open>max_size()\<close> elements, and that is at
  most \<^verbatim>\<open>PTRDIFF_MAX\<close>; so for a vector the library can hold, the second test below
  follows from the first. It is written out because a list has no such limit.
\<close>

definition max_size :: nat where
  "max_size = 2 ^ 63 - 1"

definition at :: "'a list \<Rightarrow> nat \<Rightarrow> error + 'a" where
  "at v i = (if i < length v \<and> i < max_size then Inr (v ! i) else Inl OutOfBounds)"

text \<open>\<^verbatim>\<open>SwapNode_\<close>: two assertions, the swap, and the two writes to \<^verbatim>\<open>ref_\<close>.\<close>

definition SwapNode :: "'cb HeapTimer \<Rightarrow> nat \<Rightarrow> nat \<Rightarrow> error + 'cb HeapTimer" where
  "SwapNode t i j =
     (if \<not> i < length (heap t) then Inl AssertFail
      else if \<not> j < length (heap t) then Inl AssertFail
      else (let h = (heap t)[i := heap t ! j, j := heap t ! i];
                r1 = (ref t)(id_node (h ! i) \<mapsto> i);
                r2 = r1(id_node (h ! j) \<mapsto> j)
            in Inr (t\<lparr>heap := h, ref := r2\<rparr>)))"

text \<open>
  The loop of \<^verbatim>\<open>siftup_\<close>. The source computes \<open>j = (i - 1) / 2\<close> before the loop and
  at the end of its body; here it is computed at the head of each iteration, from the
  same \<open>i\<close>. The loop test \<open>j >= 0\<close> is kept as the source has it.
\<close>

function siftup_loop :: "'cb HeapTimer \<Rightarrow> nat \<Rightarrow> error + 'cb HeapTimer" where
  "siftup_loop t i =
     (let j = size_t (int i - 1) div 2 in
      if j \<ge> 0
      then (case at (heap t) j of
              Inl e \<Rightarrow> Inl e
            | Inr hj \<Rightarrow>
                (case at (heap t) i of
                   Inl e \<Rightarrow> Inl e
                 | Inr hi \<Rightarrow>
                     if expires hj < expires hi then Inr t
                     else (case SwapNode t i j of
                             Inl e \<Rightarrow> Inl e
                           | Inr t' \<Rightarrow> siftup_loop t' j)))
      else Inr t)"
  by pat_completeness auto

lemma parent_less:
  assumes "at v (size_t (int i - 1) div 2) = Inr x"
  shows "size_t (int i - 1) div 2 < i"
proof (cases "i = 0")
  case True
  then have "size_t (int i - 1) div 2 = max_size"
    by (simp add: size_t_def max_size_def)
  with assms show ?thesis by (simp add: at_def)
next
  case False
  have "(int i - 1) mod 2 ^ 64 \<le> int i - 1"
    using False by (intro zmod_le_nonneg_dividend) simp
  then have "size_t (int i - 1) \<le> i - 1"
    by (simp add: size_t_def)
  with False show ?thesis by simp
qed

termination siftup_loop
  by (relation "measure (\<lambda>(t, i). i)") (auto dest: parent_less)

declare siftup_loop.simps [simp del]

definition siftup :: "'cb HeapTimer \<Rightarrow> nat \<Rightarrow> error + 'cb HeapTimer" where
  "siftup t i = (if \<not> i < length (heap t) then Inl AssertFail else siftup_loop t i)"

text \<open>
  The first statement of the body of the loop of \<^verbatim>\<open>siftdown_\<close>,
  \<^verbatim>\<open>if (j + 1 < n && heap_[j + 1] < heap_[j]) j++;\<close>: the new value of \<open>j\<close>.
\<close>

definition smaller_child :: "'cb TimerNode list \<Rightarrow> nat \<Rightarrow> nat \<Rightarrow> error + nat" where
  "smaller_child h j n =
     (if size_t (int j + 1) < n
      then (case at h (size_t (int j + 1)) of
              Inl e \<Rightarrow> Inl e
            | Inr hr \<Rightarrow>
                (case at h j of
                   Inl e \<Rightarrow> Inl e
                 | Inr hl \<Rightarrow> if expires hr < expires hl then Inr (size_t (int j + 1)) else Inr j))
      else Inr j)"

text \<open>
  The loop of \<^verbatim>\<open>siftdown_\<close>, with \<open>j = i * 2 + 1\<close> computed at the head of each
  iteration; it returns the timer and the final \<open>i\<close>.
\<close>

function siftdown_loop :: "'cb HeapTimer \<Rightarrow> nat \<Rightarrow> nat \<Rightarrow> error + ('cb HeapTimer \<times> nat)" where
  "siftdown_loop t i n =
     (let j = size_t (int i * 2 + 1) in
      if j < n
      then (case smaller_child (heap t) j n of
              Inl e \<Rightarrow> Inl e
            | Inr j' \<Rightarrow>
                (case at (heap t) i of
                   Inl e \<Rightarrow> Inl e
                 | Inr hi \<Rightarrow>
                     (case at (heap t) j' of
                        Inl e \<Rightarrow> Inl e
                      | Inr hj \<Rightarrow>
                          if expires hi < expires hj then Inr (t, i)
                          else (case SwapNode t i j' of
                                  Inl e \<Rightarrow> Inl e
                                | Inr t' \<Rightarrow> siftdown_loop t' j' n))))
      else Inr (t, i))"
  by pat_completeness auto

lemma at_Inr: "at v i = Inr x \<longleftrightarrow> i < length v \<and> i < max_size \<and> x = v ! i"
  by (auto simp: at_def)

lemma left_child: "i < max_size \<Longrightarrow> size_t (int i * 2 + 1) = 2 * i + 1"
  by (simp add: size_t_def max_size_def nat_mod_distrib nat_add_distrib nat_mult_distrib)

lemma smaller_child_cases:
  assumes "smaller_child h j n = Inr j'" and "j < n"
  shows "j' < n \<and> (j' = j \<or> (j' = j + 1 \<and> j + 1 < n))"
proof (cases "size_t (int j + 1) < n")
  case False
  with assms show ?thesis by (simp add: smaller_child_def)
next
  case True
  show ?thesis
  proof (cases "j' = j")
    case True
    with assms show ?thesis by simp
  next
    case False
    from assms True False have a: "at h j \<noteq> Inl OutOfBounds" and j': "j' = size_t (int j + 1)"
      by (auto simp: smaller_child_def split: sum.splits if_splits)
    from a have "j < max_size" by (auto simp: at_def split: if_splits)
    then have "size_t (int j + 1) = j + 1"
      by (simp add: size_t_def max_size_def nat_mod_distrib nat_add_distrib)
    with True j' show ?thesis by simp
  qed
qed

termination siftdown_loop
proof (relation "measure (\<lambda>(t, i, n). n - i)", goal_cases)
  case 1
  then show ?case by simp
next
  case (2 t i n j j' hi hj t')
  from 2 have i: "i < max_size" by (simp add: at_Inr)
  with 2 have j: "j = 2 * i + 1" by (simp add: left_child)
  from smaller_child_cases[OF 2(3)] 2(2) have "j' < n" "j \<le> j'" by auto
  with j show ?case by simp
qed


declare siftdown_loop.simps [simp del]

text \<open>\<^verbatim>\<open>siftdown_\<close> returns whether the node moved, \<open>i > index\<close>.\<close>

definition siftdown :: "'cb HeapTimer \<Rightarrow> nat \<Rightarrow> nat \<Rightarrow> error + ('cb HeapTimer \<times> bool)" where
  "siftdown t index n =
     (if \<not> index < length (heap t) then Inl AssertFail
      else if \<not> n \<le> length (heap t) then Inl AssertFail
      else (case siftdown_loop t index n of
              Inl e \<Rightarrow> Inl e
            | Inr (t', i) \<Rightarrow> Inr (t', i > index)))"

text \<open>
  \<^verbatim>\<open>Clock::now()\<close> counts nanoseconds; \<^verbatim>\<open>MS(timeout)\<close> is converted to the clock's
  unit when added, and \<^verbatim>\<open>duration_cast<MS>\<close> divides, truncating towards zero.
  Time points are unbounded integers: an overflow of the 64-bit tick count is not
  modelled. Each operation that reads the clock takes the reading as \<open>now\<close>.
\<close>

definition MS :: "int \<Rightarrow> int" where
  "MS timeout = timeout * 1000000"

definition duration_cast_MS :: "int \<Rightarrow> int" where
  "duration_cast_MS d = d sdiv 1000000"

text \<open>
  \<^verbatim>\<open>add\<close>: a new id is appended and sifted up; a known id has its deadline and
  callback overwritten in place and is sifted down and, if that did not move it, up.
\<close>

definition add :: "'cb HeapTimer \<Rightarrow> int \<Rightarrow> int \<Rightarrow> 'cb \<Rightarrow> int \<Rightarrow> error + 'cb HeapTimer" where
  "add t tid timeout c now =
     (if \<not> tid \<ge> 0 then Inl AssertFail
      else (case ref t tid of
              None \<Rightarrow>
                (let i = length (heap t) in
                 if i \<ge> max_size then Inl LengthError
                 else siftup (t\<lparr>ref := (ref t)(tid \<mapsto> i),
                                heap := heap t @ [\<lparr>id_node = tid, expires = now + MS timeout, cb = c\<rparr>]\<rparr>) i)
            | Some i \<Rightarrow>
                (case at (heap t) i of
                   Inl e \<Rightarrow> Inl e
                 | Inr nd \<Rightarrow>
                     (let t1 = t\<lparr>heap := (heap t)[i := nd\<lparr>expires := now + MS timeout, cb := c\<rparr>]\<rparr> in
                      case siftdown t1 i (length (heap t1)) of
                        Inl e \<Rightarrow> Inl e
                      | Inr (t2, moved) \<Rightarrow> if \<not> moved then siftup t2 i else Inr t2))))"

text \<open>
  \<^verbatim>\<open>del_\<close>. After the sifts the vector is as long as before, so \<^verbatim>\<open>heap_.back()\<close>
  exists; the test is written out.
\<close>

definition del :: "'cb HeapTimer \<Rightarrow> nat \<Rightarrow> error + 'cb HeapTimer" where
  "del t index =
     (if heap t = [] \<or> \<not> index < length (heap t) then Inl AssertFail
      else (let i = index; n = length (heap t) - 1 in
            if \<not> i \<le> n then Inl AssertFail
            else (case (if i < n
                        then (case SwapNode t i n of
                                Inl e \<Rightarrow> Inl e
                              | Inr t1 \<Rightarrow>
                                  (case siftdown t1 i n of
                                     Inl e \<Rightarrow> Inl e
                                   | Inr (t2, moved) \<Rightarrow> if \<not> moved then siftup t2 i else Inr t2))
                        else Inr t) of
                    Inl e \<Rightarrow> Inl e
                  | Inr t3 \<Rightarrow>
                      (if heap t3 = [] then Inl OutOfBounds
                       else Inr (t3\<lparr>ref := (ref t3)(id_node (last (heap t3)) := None),
                                   heap := butlast (heap t3)\<rparr>)))))"

text \<open>\<^verbatim>\<open>doWork\<close> runs the callback of the node, then deletes the node.\<close>

definition doWork :: "'cb HeapTimer \<Rightarrow> int \<Rightarrow> error + 'cb HeapTimer" where
  "doWork t tid =
     (if heap t = [] then Inr t
      else (case ref t tid of
              None \<Rightarrow> Inr t
            | Some i \<Rightarrow>
                (case at (heap t) i of
                   Inl e \<Rightarrow> Inl e
                 | Inr node \<Rightarrow> del (t\<lparr>fired := fired t @ [cb node]\<rparr>) i)))"

text \<open>
  \<^verbatim>\<open>adjust\<close> asserts that the heap is not empty and the id is known, overwrites the
  deadline and sifts down; the result of \<^verbatim>\<open>siftdown_\<close> is dropped.
\<close>

definition adjust :: "'cb HeapTimer \<Rightarrow> int \<Rightarrow> int \<Rightarrow> int \<Rightarrow> error + 'cb HeapTimer" where
  "adjust t tid timeout now =
     (if heap t = [] then Inl AssertFail
      else (case ref t tid of
              None \<Rightarrow> Inl AssertFail
            | Some i \<Rightarrow>
                (case at (heap t) i of
                   Inl e \<Rightarrow> Inl e
                 | Inr nd \<Rightarrow>
                     (let t1 = t\<lparr>heap := (heap t)[i := nd\<lparr>expires := now + MS timeout\<rparr>]\<rparr> in
                      case siftdown t1 i (length (heap t1)) of
                        Inl e \<Rightarrow> Inl e
                      | Inr (t2, moved) \<Rightarrow> Inr t2))))"

definition pop :: "'cb HeapTimer \<Rightarrow> error + 'cb HeapTimer" where
  "pop t = (if heap t = [] then Inl AssertFail else del t 0)"

lemma SwapNode_length: "SwapNode t i j = Inr t' \<Longrightarrow> length (heap t') = length (heap t)"
  by (auto simp: SwapNode_def Let_def split: if_splits)

lemma siftup_loop_length: "siftup_loop t i = Inr t' \<Longrightarrow> length (heap t') = length (heap t)"
proof (induction t i rule: siftup_loop.induct)
  case (1 t i)
  from "1.prems" show ?case
    apply (subst (asm) siftup_loop.simps)
    apply (auto simp: Let_def split: sum.splits if_splits dest!: "1.IH"[rotated -1] dest: SwapNode_length)
    done
qed

lemma siftdown_loop_length: "siftdown_loop t i n = Inr (t', i') \<Longrightarrow> length (heap t') = length (heap t)"
proof (induction t i n rule: siftdown_loop.induct)
  case (1 t i n)
  from "1.prems" show ?case
    apply (subst (asm) siftdown_loop.simps)
    apply (auto simp: Let_def split: sum.splits if_splits dest!: "1.IH"[rotated -1] dest: SwapNode_length)
    done
qed

lemma del_length:
  assumes "del t i = Inr t'"
  shows "Suc (length (heap t')) = length (heap t)"
  using assms
  by (auto simp: del_def siftdown_def siftup_def Let_def
      split: if_splits sum.splits prod.splits
      dest!: SwapNode_length siftdown_loop_length siftup_loop_length)

lemma pop_length: "pop t = Inr t' \<Longrightarrow> length (heap t') < length (heap t)"
  by (auto simp: pop_def dest!: del_length split: if_splits)

text \<open>
  \<^verbatim>\<open>tick\<close> reads the clock once per iteration: \<open>clk k\<close> is the \<open>k\<close>-th reading, and the
  loop returns the number of readings it has used.
\<close>

function tick_loop :: "(nat \<Rightarrow> int) \<Rightarrow> nat \<Rightarrow> 'cb HeapTimer \<Rightarrow> error + (nat \<times> 'cb HeapTimer)" where
  "tick_loop clk k t =
     (case heap t of
        [] \<Rightarrow> Inr (k, t)
      | node # _ \<Rightarrow>
          if duration_cast_MS (expires node - clk k) > 0 then Inr (Suc k, t)
          else (case pop (t\<lparr>fired := fired t @ [cb node]\<rparr>) of
                  Inl e \<Rightarrow> Inl e
                | Inr t' \<Rightarrow> tick_loop clk (Suc k) t'))"
  by pat_completeness auto
termination
proof (relation "measure (\<lambda>(clk, k, t). length (heap t))", goal_cases)
  case 1
  then show ?case by simp
next
  case (2 clk k t node rest t')
  from pop_length[OF 2(3)] show ?case by simp
qed

declare tick_loop.simps [simp del]

definition tick :: "(nat \<Rightarrow> int) \<Rightarrow> nat \<Rightarrow> 'cb HeapTimer \<Rightarrow> error + (nat \<times> 'cb HeapTimer)" where
  "tick clk k t = (if heap t = [] then Inr (k, t) else tick_loop clk k t)"

text \<open>
  \<^verbatim>\<open>GetNextTick\<close>: \<open>res\<close> is a \<^verbatim>\<open>size_t\<close>, initialised with -1; the test \<open>res < 0\<close>
  is the source's; the function returns \<open>res\<close> converted to \<^verbatim>\<open>int\<close> (32 bits, two's
  complement). It reads the clock once more after \<^verbatim>\<open>tick\<close>.
\<close>

definition GetNextTick :: "(nat \<Rightarrow> int) \<Rightarrow> 'cb HeapTimer \<Rightarrow> error + (int \<times> 'cb HeapTimer)" where
  "GetNextTick clk t =
     (case tick clk 0 t of
        Inl e \<Rightarrow> Inl e
      | Inr (k, t') \<Rightarrow>
          (let res0 = size_t (- 1);
               res = (case heap t' of
                        [] \<Rightarrow> res0
                      | node # _ \<Rightarrow>
                          (let r = size_t (duration_cast_MS (expires node - clk k)) in
                           if r < 0 then 0 else r))
           in Inr (sint (word_of_nat res :: 32 word), t')))"


text \<open>
  The invariant of the data model: \<open>heap\<close> is a binary min-heap on \<open>expires\<close>, \<open>ref\<close>
  maps the id of every node to the node's index, and no id occurs twice.
\<close>

definition min_heap :: "'cb TimerNode list \<Rightarrow> bool" where
  "min_heap h \<longleftrightarrow>
     (\<forall>i<length h. (2 * i + 1 < length h \<longrightarrow> expires (h ! i) \<le> expires (h ! (2 * i + 1)))
                  \<and> (2 * i + 2 < length h \<longrightarrow> expires (h ! i) \<le> expires (h ! (2 * i + 2))))"

definition ref_ok :: "'cb HeapTimer \<Rightarrow> bool" where
  "ref_ok t \<longleftrightarrow> (\<forall>i<length (heap t). ref t (id_node (heap t ! i)) = Some i)"

definition timer_inv :: "'cb HeapTimer \<Rightarrow> bool" where
  "timer_inv t \<longleftrightarrow> min_heap (heap t) \<and> ref_ok t \<and> distinct (map id_node (heap t))"

text \<open>
  The notions the proofs work with. The heap order on the first \<open>n\<close> nodes, read from
  the child; the same order with a hole at \<open>k\<close>, where no edge into or out of \<open>k\<close> is
  known to be in order but the children of \<open>k\<close> are not below its parent; and the two
  kinds of edge at \<open>k\<close>.
\<close>

definition parent :: "nat \<Rightarrow> nat" where
  "parent j = (j - 1) div 2"

definition heap_below :: "'cb TimerNode list \<Rightarrow> nat \<Rightarrow> bool" where
  "heap_below h n \<longleftrightarrow> (\<forall>j. 0 < j \<and> j < n \<longrightarrow> expires (h ! parent j) \<le> expires (h ! j))"

definition hole :: "'cb TimerNode list \<Rightarrow> nat \<Rightarrow> nat \<Rightarrow> bool" where
  "hole h n k \<longleftrightarrow>
     (\<forall>j. 0 < j \<and> j < n \<and> j \<noteq> k \<and> parent j \<noteq> k \<longrightarrow> expires (h ! parent j) \<le> expires (h ! j))
     \<and> (\<forall>j. 0 < j \<and> j < n \<and> parent j = k \<and> 0 < k \<longrightarrow> expires (h ! parent k) \<le> expires (h ! j))"

definition down_ok :: "'cb TimerNode list \<Rightarrow> nat \<Rightarrow> nat \<Rightarrow> bool" where
  "down_ok h n k \<longleftrightarrow> (\<forall>j. 0 < j \<and> j < n \<and> parent j = k \<longrightarrow> expires (h ! k) \<le> expires (h ! j))"

definition up_ok :: "'cb TimerNode list \<Rightarrow> nat \<Rightarrow> bool" where
  "up_ok h k \<longleftrightarrow> (0 < k \<longrightarrow> expires (h ! parent k) \<le> expires (h ! k))"

section \<open>Properties of the Epoller\<close>

text \<open>
  C10. For a negative descriptor, \<^verbatim>\<open>AddFd\<close>, \<^verbatim>\<open>ModFd\<close> and \<^verbatim>\<open>DelFd\<close> return false
  and leave the whole state as it was: the interest list is unchanged and no
  \<^verbatim>\<open>epoll_ctl\<close> call was logged.
\<close>

theorem negative_fd_rejected:
  assumes "fd < 0"
  shows "AddFd e fd ev = (False, e) \<and> ModFd e fd ev = (False, e) \<and> DelFd e fd = (False, e)"
  using assms by (simp add: AddFd_def ModFd_def DelFd_def)

theorem negative_fd_rejected_witness:
  "(- 1 :: int) < 0
   \<and> AddFd \<lparr>interest = Map.empty, ctl_log = []\<rparr> (- 1) 1 = (False, \<lparr>interest = Map.empty, ctl_log = []\<rparr>)
   \<and> ModFd \<lparr>interest = Map.empty, ctl_log = []\<rparr> (- 1) 1 = (False, \<lparr>interest = Map.empty, ctl_log = []\<rparr>)
   \<and> DelFd \<lparr>interest = Map.empty, ctl_log = []\<rparr> (- 1) = (False, \<lparr>interest = Map.empty, ctl_log = []\<rparr>)"
  using negative_fd_rejected [of "- 1" "\<lparr>interest = Map.empty, ctl_log = []\<rparr>" 1] by simp

section \<open>Properties of the Buffer\<close>

lemma MakeSpace_props:
  assumes "buffer_ok b" "WritableBytes b < len"
  shows "\<exists>b'. MakeSpace b len = Inr b' \<and> readable b' = readable b \<and> buffer_ok b'
           \<and> len \<le> WritableBytes b' \<and> ReadableBytes b' = ReadableBytes b"
proof (cases "WritableBytes b + PrependableBytes b < len")
  case True
  with assms show ?thesis
    by (auto simp: MakeSpace_def readable_def buffer_ok_def WritableBytes_def
        PrependableBytes_def ReadableBytes_def resize_def)
next
  case False
  define rd where "rd = ReadableBytes b"
  define src where "src = take rd (drop (readPos b) (buffer b))"
  have ls: "length src = rd"
    using assms(1) by (auto simp: src_def rd_def ReadableBytes_def buffer_ok_def)
  have rr: "read_range (buffer b) (readPos b) (writePos b) = Inr src"
    using assms(1) by (simp add: read_range_def buffer_ok_def src_def rd_def ReadableBytes_def)
  have rl: "rd \<le> length (buffer b)"
    using assms(1) by (auto simp: rd_def ReadableBytes_def buffer_ok_def)
  define v where "v = src @ drop rd (buffer b)"
  have ct: "copy_to (buffer b) 0 src = Inr v"
    using rl by (simp add: copy_to_def ls v_def)
  define b' where "b' = b\<lparr>buffer := v, readPos := 0, writePos := rd\<rparr>"
  have M: "MakeSpace b len = Inr b'"
    using False by (simp add: MakeSpace_def rr ct Let_def b'_def rd_def ReadableBytes_def)
  have lv: "length v = length (buffer b)"
    using rl by (simp add: v_def ls)
  have "readable b' = take rd v"
    by (simp add: readable_def b'_def ReadableBytes_def)
  also have "\<dots> = src"
    by (simp add: v_def ls)
  also have "\<dots> = readable b"
    by (simp add: src_def rd_def readable_def)
  finally have "readable b' = readable b" .
  moreover have "buffer_ok b'"
    using rl by (simp add: buffer_ok_def b'_def lv)
  moreover have "len \<le> WritableBytes b'"
    using False assms(1)
    by (simp add: WritableBytes_def b'_def lv rd_def ReadableBytes_def PrependableBytes_def
        buffer_ok_def)
  moreover have "ReadableBytes b' = ReadableBytes b"
    by (simp add: ReadableBytes_def b'_def rd_def)
  ultimately show ?thesis using M by blast
qed

lemma EnsureWriteable_props:
  assumes "buffer_ok b"
  shows "\<exists>b'. EnsureWriteable b len = Inr b' \<and> readable b' = readable b \<and> buffer_ok b'
           \<and> len \<le> WritableBytes b' \<and> ReadableBytes b' = ReadableBytes b"
proof (cases "WritableBytes b < len")
  case True
  from MakeSpace_props[OF assms True] show ?thesis
    using True by (auto simp: EnsureWriteable_def)
next
  case False
  with assms show ?thesis by (simp add: EnsureWriteable_def)
qed

lemma write_at_cursor:
  assumes "rp \<le> wp" "wp + length xs \<le> length v"
  shows "take (wp + length xs - rp) (drop rp (take wp v @ xs @ drop (wp + length xs) v))
           = take (wp - rp) (drop rp v) @ xs"
proof -
  have "drop rp (take wp v @ xs @ drop (wp + length xs) v)
          = drop rp (take wp v) @ xs @ drop (wp + length xs) v"
    using assms by simp
  moreover have "length (drop rp (take wp v)) = wp - rp"
    using assms by simp
  moreover have "drop rp (take wp v) = take (wp - rp) (drop rp v)"
    by (simp add: drop_take)
  moreover have "wp + length xs - rp = (wp - rp) + length xs"
    using assms by simp
  ultimately show ?thesis by simp
qed

lemma Append_props:
  assumes "buffer_ok b"
  shows "\<exists>b'. Append b xs = Inr b' \<and> readable b' = readable b @ xs \<and> buffer_ok b'
           \<and> ReadableBytes b' = ReadableBytes b + length xs"
proof -
  from EnsureWriteable_props[OF assms, of "length xs"]
  obtain b1 where e: "EnsureWriteable b (length xs) = Inr b1"
    and ok: "buffer_ok b1" and w: "length xs \<le> WritableBytes b1"
    and r: "readable b1 = readable b" and rb: "ReadableBytes b1 = ReadableBytes b"
    by blast
  have le: "readPos b1 \<le> writePos b1" "writePos b1 + length xs \<le> length (buffer b1)"
    using ok w by (auto simp: buffer_ok_def WritableBytes_def)
  define v where
    "v = take (writePos b1) (buffer b1) @ xs @ drop (writePos b1 + length xs) (buffer b1)"
  have ct: "copy_to (buffer b1) (writePos b1) xs = Inr v"
    using le by (simp add: copy_to_def v_def)
  have lv: "length v = length (buffer b1)"
    using le by (simp add: v_def)
  define b' where "b' = b1\<lparr>buffer := v, writePos := writePos b1 + length xs\<rparr>"
  have A: "Append b xs = Inr b'"
    by (simp add: Append_def HasWritten_def e ct b'_def)
  have "readable b' = readable b @ xs"
    using write_at_cursor[OF le] r by (simp add: b'_def v_def readable_def ReadableBytes_def)
  moreover have "buffer_ok b'"
    using le by (simp add: b'_def buffer_ok_def lv)
  moreover have "ReadableBytes b' = ReadableBytes b + length xs"
    using le rb by (simp add: b'_def ReadableBytes_def)
  ultimately show ?thesis using A by blast
qed

text \<open>
  Without room for the bytes \<^verbatim>\<open>Append\<close>'s copy would run past the end of the vector:
  it is \<^verbatim>\<open>EnsureWriteable\<close> that keeps the write inside.
\<close>

lemma copy_to_full_vector:
  "xs \<noteq> [] \<Longrightarrow> copy_to v (length v) xs = Inl OutOfBounds"
  by (simp add: copy_to_def)

text \<open>
  C6. \<^verbatim>\<open>ReadFd\<close> on a well-formed buffer whose writable tail is empty, when the kernel
  delivers at least one byte: nothing goes into the tail segment and everything into the
  staging buffer (so at most 65535 bytes are delivered), the call returns the number of
  bytes delivered, \<^verbatim>\<open>ReadableBytes\<close> grows by exactly that number, and the readable
  content is the old content followed by the delivered bytes. No assertion fails and
  no write leaves the vector.
\<close>

theorem ReadFd_empty_tail:
  assumes "buffer_ok b" and "WritableBytes b = 0"
    and "0 < length (delivered (readv (WritableBytes b) stage_size avail))"
  shows "into_tail (readv (WritableBytes b) stage_size avail) = []
    \<and> into_stage (readv (WritableBytes b) stage_size avail)
        = delivered (readv (WritableBytes b) stage_size avail)
    \<and> length (delivered (readv (WritableBytes b) stage_size avail)) \<le> 65535
    \<and> (\<exists>r. ReadFd b e (Ready avail) = Inr r
          \<and> ret r = int (length (delivered (readv (WritableBytes b) stage_size avail)))
          \<and> ReadableBytes (buf r) = ReadableBytes b + nat (ret r)
          \<and> readable (buf r) = readable b @ delivered (readv (WritableBytes b) stage_size avail)
          \<and> buffer_ok (buf r))"
proof -
  define d where "d = take 65535 avail"
  have w: "writePos b = length (buffer b)"
    using assms(1,2) by (simp add: buffer_ok_def WritableBytes_def)
  have rv: "readv 0 stage_size avail = \<lparr>delivered = d, into_tail = [], into_stage = d\<rparr>"
    by (simp add: readv_def stage_size_def Let_def d_def)
  have len: "0 < length d" "length d \<le> 65535"
    using assms(2,3) by (simp_all add: rv) (simp add: d_def)
  have ct: "copy_to (buffer b) (writePos b) [] = Inr (buffer b)"
    using w by (simp add: copy_to_def)
  have b1: "b\<lparr>buffer := buffer b, writePos := length (buffer b)\<rparr> = b"
    using w by simp
  from Append_props[OF assms(1), of d] obtain b' where A: "Append b d = Inr b'"
    and p: "readable b' = readable b @ d" "buffer_ok b'"
      "ReadableBytes b' = ReadableBytes b + length d"
    by blast
  have R: "ReadFd b e (Ready avail) = Inr \<lparr>ret = int (length d), saveErrno = e, buf = b'\<rparr>"
    using assms(2) b1 len(1) A by (simp add: ReadFd_def Let_def rv ct)
  show ?thesis
    using p len by (simp add: R rv assms(2))
qed

theorem ReadFd_empty_tail_witness:
  "buffer_ok \<lparr>buffer = [1, 2], readPos = 1, writePos = 2\<rparr>
   \<and> WritableBytes \<lparr>buffer = [1, 2], readPos = 1, writePos = 2\<rparr> = 0
   \<and> 0 < length (delivered (readv (WritableBytes \<lparr>buffer = [1, 2], readPos = 1, writePos = 2\<rparr>)
                               stage_size [7, 8, 9]))
   \<and> ReadFd \<lparr>buffer = [1, 2], readPos = 1, writePos = 2\<rparr> 0 (Ready [7, 8, 9])
       = Inr \<lparr>ret = 3, saveErrno = 0,
              buf = \<lparr>buffer = [1, 2, 7, 8, 9, 0], readPos = 1, writePos = 5\<rparr>\<rparr>
   \<and> readable \<lparr>buffer = [1, 2, 7, 8, 9, 0], readPos = 1, writePos = 5\<rparr> = [2, 7, 8, 9]
   \<and> buffer_ok \<lparr>buffer = [1, 2, 3, 4], readPos = 3, writePos = 4\<rparr>
   \<and> WritableBytes \<lparr>buffer = [1, 2, 3, 4], readPos = 3, writePos = 4\<rparr> = 0
   \<and> 0 < length (delivered (readv (WritableBytes \<lparr>buffer = [1, 2, 3, 4], readPos = 3, writePos = 4\<rparr>)
                               stage_size [7, 8]))
   \<and> ReadFd \<lparr>buffer = [1, 2, 3, 4], readPos = 3, writePos = 4\<rparr> 0 (Ready [7, 8])
       = Inr \<lparr>ret = 2, saveErrno = 0,
              buf = \<lparr>buffer = [4, 7, 8, 4], readPos = 0, writePos = 3\<rparr>\<rparr>
   \<and> readable \<lparr>buffer = [4, 7, 8, 4], readPos = 0, writePos = 3\<rparr> = [4, 7, 8]"
proof -
  let ?b = "\<lparr>buffer = [1, 2], readPos = 1, writePos = 2\<rparr>"
  let ?c = "\<lparr>buffer = [1, 2, 3, 4], readPos = 3, writePos = 4\<rparr>"
  have ok: "buffer_ok ?b" "buffer_ok ?c" by (simp_all add: buffer_ok_def)
  have w: "WritableBytes ?b = 0" "WritableBytes ?c = 0" by (simp_all add: WritableBytes_def)
  have pos: "0 < length (delivered (readv (WritableBytes ?b) stage_size [7, 8, 9]))"
    "0 < length (delivered (readv (WritableBytes ?c) stage_size [7, 8]))"
    by (simp_all add: WritableBytes_def readv_def stage_size_def Let_def)
  have ev: "ReadFd ?b 0 (Ready [7, 8, 9])
       = Inr \<lparr>ret = 3, saveErrno = 0,
              buf = \<lparr>buffer = [1, 2, 7, 8, 9, 0], readPos = 1, writePos = 5\<rparr>\<rparr>"
    "ReadFd ?c 0 (Ready [7, 8])
       = Inr \<lparr>ret = 2, saveErrno = 0,
              buf = \<lparr>buffer = [4, 7, 8, 4], readPos = 0, writePos = 3\<rparr>\<rparr>"
    by (simp_all add: ReadFd_def Append_def EnsureWriteable_def MakeSpace_def HasWritten_def
        copy_to_def read_range_def resize_def readv_def stage_size_def WritableBytes_def
        PrependableBytes_def ReadableBytes_def Let_def)
  have rd: "readable ?b = [2]" "readable ?c = [4]"
    by (simp_all add: readable_def ReadableBytes_def)
  from ReadFd_empty_tail [OF ok(1) w(1) pos(1), of 0] ReadFd_empty_tail [OF ok(2) w(2) pos(2), of 0]
  have "readable \<lparr>buffer = [1, 2, 7, 8, 9, 0], readPos = 1, writePos = 5\<rparr> = [2, 7, 8, 9]
      \<and> readable \<lparr>buffer = [4, 7, 8, 4], readPos = 0, writePos = 3\<rparr> = [4, 7, 8]"
    using ev rd pos by (simp add: WritableBytes_def readv_def stage_size_def Let_def)
  then show ?thesis using ok w pos ev by blast
qed

text \<open>
  C8. When the kernel call fails, \<^verbatim>\<open>ReadFd\<close> returns -1, stores the error code in
  \<^verbatim>\<open>*saveErrno\<close> and leaves the buffer, with both cursors, as it was.
\<close>

theorem ReadFd_failure_atomic:
  "ReadFd b e (Fails errno) = Inr \<lparr>ret = - 1, saveErrno = errno, buf = b\<rparr>
   \<and> readPos (buf (projr (ReadFd b e (Fails errno)))) = readPos b
   \<and> writePos (buf (projr (ReadFd b e (Fails errno)))) = writePos b
   \<and> buffer (buf (projr (ReadFd b e (Fails errno)))) = buffer b"
  by (simp add: ReadFd_def)

section \<open>Properties of the ThreadPool\<close>

lemma worker_iter_Exited:
  "worker_iter p = (Exited, p') \<longleftrightarrow> tasks p = [] \<and> isClosed p \<and> p' = p"
  by (auto simp: worker_iter_def)

lemma worker_iter_nonempty:
  "tasks p \<noteq> [] \<Longrightarrow> worker_iter p = (Running (hd (tasks p)), p\<lparr>tasks := tl (tasks p)\<rparr>)"
  by (simp add: worker_iter_def)

lemma worker_loop_closed:
  "isClosed p \<Longrightarrow> worker_loop p = (tasks p, Exited, p\<lparr>tasks := []\<rparr>)"
proof (induction "tasks p" arbitrary: p)
  case Nil
  then show ?case
    by (simp add: worker_loop.simps[of p] worker_iter_def)
next
  case (Cons t ts)
  let ?p' = "p\<lparr>tasks := ts\<rparr>"
  have it: "worker_iter p = (Running t, ?p')"
    using Cons.hyps(2)[symmetric] by (simp add: worker_iter_def)
  have "worker_loop ?p' = (tasks ?p', Exited, ?p'\<lparr>tasks := []\<rparr>)"
    using Cons.hyps(1)[of ?p'] Cons.prems by simp
  then show ?case
    using Cons.hyps(2)[symmetric] by (simp add: worker_loop.simps[of p] it)
qed

lemma worker_leaves_Head:
  assumes "pool_step c c'" and "i < length (workers c)"
    and "workers c ! i = Head" and "workers c' ! i \<noteq> Head"
  shows "worker_iter (pool c) = (workers c' ! i, pool c')"
  using assms
proof (cases rule: pool_step.cases)
  case (body k w p')
  show ?thesis
  proof (cases "k = i")
    case True
    with body assms(2) show ?thesis by simp
  next
    case False
    with body assms(3,4) show ?thesis by simp
  qed
qed (auto simp: nth_list_update split: if_splits)

text \<open>
  C9. A worker leaves its loop only in a step taken where the queue is empty and the
  pool is closed, and that step leaves the pool as it is. A worker at the head of the
  loop that finds a task queued, closed pool or not, can always take its step, which
  removes the front task from the queue and runs it, and every step that moves it from
  the head of the loop is that step. Left alone with a closed pool, a worker runs
  every queued task, in order, and only then leaves its loop, with the queue empty.
\<close>

theorem worker_exits_only_when_drained:
  assumes "i < length (workers c)"
  shows "(pool_step c c' \<and> workers c ! i \<noteq> Exited \<and> workers c' ! i = Exited \<longrightarrow>
            tasks (pool c) = [] \<and> isClosed (pool c) \<and> pool c' = pool c)
       \<and> (workers c ! i = Head \<and> tasks (pool c) \<noteq> [] \<longrightarrow>
            pool_step c (c\<lparr>pool := (pool c)\<lparr>tasks := tl (tasks (pool c))\<rparr>, mtx_held := False,
                           workers := (workers c)[i := Running (hd (tasks (pool c)))]\<rparr>))
       \<and> (pool_step c c' \<and> workers c ! i = Head \<and> workers c' ! i \<noteq> Head
            \<and> tasks (pool c) \<noteq> [] \<longrightarrow>
            workers c' ! i = Running (hd (tasks (pool c)))
            \<and> tasks (pool c') = tl (tasks (pool c)))
       \<and> (isClosed (pool c) \<longrightarrow>
            worker_loop (pool c) = (tasks (pool c), Exited, (pool c)\<lparr>tasks := []\<rparr>))"
proof -
  have c1: "tasks (pool c) = [] \<and> isClosed (pool c) \<and> pool c' = pool c"
    if a: "pool_step c c' \<and> workers c ! i \<noteq> Exited \<and> workers c' ! i = Exited"
  proof -
    from a have s: "pool_step c c'" by simp
    from s show ?thesis
    proof (cases rule: pool_step.cases)
      case (body k w p')
      show ?thesis
      proof (cases "k = i")
        case True
        with body assms a have "worker_iter (pool c) = (Exited, p')" by simp
        then show ?thesis using body(1) by (simp add: worker_iter_Exited)
      next
        case False
        with body a show ?thesis by simp
      qed
    qed (use a assms in \<open>auto simp: nth_list_update split: if_splits\<close>)
  qed
  have c2: "pool_step c (c\<lparr>pool := (pool c)\<lparr>tasks := tl (tasks (pool c))\<rparr>,
      mtx_held := False, workers := (workers c)[i := Running (hd (tasks (pool c)))]\<rparr>)"
    if a: "workers c ! i = Head \<and> tasks (pool c) \<noteq> []"
  proof -
    from a have "worker_iter (pool c)
        = (Running (hd (tasks (pool c))), (pool c)\<lparr>tasks := tl (tasks (pool c))\<rparr>)"
      by (simp add: worker_iter_nonempty)
    with assms a show ?thesis
      by (intro pool_step.body) simp_all
  qed
  have c3: "workers c' ! i = Running (hd (tasks (pool c)))
      \<and> tasks (pool c') = tl (tasks (pool c))"
    if a: "pool_step c c' \<and> workers c ! i = Head \<and> workers c' ! i \<noteq> Head
      \<and> tasks (pool c) \<noteq> []"
  proof -
    from a have "worker_iter (pool c) = (workers c' ! i, pool c')"
      using worker_leaves_Head[of c c' i] assms by simp
    moreover from a have "worker_iter (pool c)
        = (Running (hd (tasks (pool c))), (pool c)\<lparr>tasks := tl (tasks (pool c))\<rparr>)"
      by (simp add: worker_iter_nonempty)
    ultimately have "workers c' ! i = Running (hd (tasks (pool c)))"
      and "pool c' = (pool c)\<lparr>tasks := tl (tasks (pool c))\<rparr>"
      by simp_all
    then show ?thesis by simp
  qed
  have c4: "worker_loop (pool c) = (tasks (pool c), Exited, (pool c)\<lparr>tasks := []\<rparr>)"
    if "isClosed (pool c)"
    using that by (rule worker_loop_closed)
  show ?thesis using c1 c2 c3 c4 by blast
qed

theorem worker_exits_only_when_drained_witness:
  "pool_step \<lparr>pool = \<lparr>isClosed = True, tasks = ([] :: nat list)\<rparr>, mtx_held = True, workers = [Head]\<rparr>
             \<lparr>pool = \<lparr>isClosed = True, tasks = []\<rparr>, mtx_held = False, workers = [Exited]\<rparr>
   \<and> pool_step \<lparr>pool = \<lparr>isClosed = True, tasks = [11 :: nat, 12]\<rparr>, mtx_held = True,
                workers = [Head]\<rparr>
               \<lparr>pool = \<lparr>isClosed = True, tasks = [12]\<rparr>, mtx_held = False,
                workers = [Running 11]\<rparr>
   \<and> worker_loop \<lparr>isClosed = True, tasks = [11 :: nat, 12]\<rparr>
       = ([11, 12], Exited, \<lparr>isClosed = True, tasks = []\<rparr>)"
proof -
  let ?c = "\<lparr>pool = \<lparr>isClosed = True, tasks = ([] :: nat list)\<rparr>, mtx_held = True, workers = [Head]\<rparr>"
  let ?d = "\<lparr>pool = \<lparr>isClosed = True, tasks = [11 :: nat, 12]\<rparr>, mtx_held = True, workers = [Head]\<rparr>"
  have w: "worker_iter (pool ?c) = (Exited, pool ?c)"
    by (simp add: worker_iter_def)
  have "pool_step ?c (?c\<lparr>pool := pool ?c, mtx_held := False, workers := (workers ?c)[0 := Exited]\<rparr>)"
    by (rule pool_step.body [OF _ _ w]) simp_all
  then have s: "pool_step ?c \<lparr>pool = \<lparr>isClosed = True, tasks = []\<rparr>, mtx_held = False, workers = [Exited]\<rparr>"
    by simp
  have l: "(0 :: nat) < length (workers ?d)" by simp
  from worker_exits_only_when_drained [OF l, of ?d]
  have "pool_step ?d \<lparr>pool = \<lparr>isClosed = True, tasks = [12]\<rparr>, mtx_held = False,
                workers = [Running 11]\<rparr>
      \<and> worker_loop \<lparr>isClosed = True, tasks = [11 :: nat, 12]\<rparr>
       = ([11, 12], Exited, \<lparr>isClosed = True, tasks = []\<rparr>)"
    by simp
  with s show ?thesis by blast
qed

section \<open>Properties of the SqlConnPool\<close>




section \<open>Properties of the BlockDeque\<close>

text \<open>
  C5. On a queue that \<^verbatim>\<open>Close\<close> has emptied and closed, a call of \<^verbatim>\<open>pop\<close> enters the
  loop and reaches \<^verbatim>\<open>condConsumer_.wait\<close> before it ever looks at \<^verbatim>\<open>isClose_\<close>; only
  a later wake-up makes it return false.
\<close>

theorem pop_on_closed_queue_waits:
  "pop_enter (Close \<lparr>deq = [1 :: nat, 2], capacity = 1000, isClose = False\<rparr>) = Pop_waits
   \<and> pop_wake (Close \<lparr>deq = [1 :: nat, 2], capacity = 1000, isClose = False\<rparr>)
       = Pop_false \<lparr>deq = [], capacity = 1000, isClose = True\<rparr>"
  by (simp add: pop_enter_def pop_wake_def Close_def)

section \<open>Properties of the accept loop\<close>

lemma DealListen_conns_mono: "conns s \<subseteq> conns (fst (DealListen M s fds))"
  by (induction M s fds rule: DealListen.induct)
     (auto simp: Let_def SendError_def AddClient_def HttpConn_init_def)

text \<open>
  C7. For a client that \<^verbatim>\<open>accept\<close> returned (a positive descriptor): if
  \<open>userCount < MAX_FD\<close>, in particular at \<open>MAX_FD - 1\<close>, the connection is installed; if
  \<open>userCount \<ge> MAX_FD\<close> the server sends "Server busy!" to the descriptor, closes it,
  installs nothing and leaves the loop. So a descriptor that was not installed before
  is installed exactly when \<open>userCount < MAX_FD\<close>.
\<close>

theorem DealListen_admission:
  assumes "0 < fd"
  shows "(userCount s < MAX_FD \<longrightarrow> fd \<in> conns (fst (DealListen MAX_FD s (fd # rest))))
    \<and> (userCount s = MAX_FD - 1 \<longrightarrow> fd \<in> conns (fst (DealListen MAX_FD s (fd # rest))))
    \<and> (userCount s \<ge> MAX_FD \<longrightarrow>
          DealListen MAX_FD s (fd # rest)
            = (s\<lparr>effects := effects s @ [Send fd ''Server busy!'', CloseFd fd]\<rparr>, rest))
    \<and> (fd \<notin> conns s \<longrightarrow>
          (fd \<in> conns (fst (DealListen MAX_FD s (fd # rest))) \<longleftrightarrow> userCount s < MAX_FD))"
proof -
  have a: "fd \<in> conns (fst (DealListen MAX_FD s (fd # rest)))" if "userCount s < MAX_FD"
  proof -
    have "fd \<in> conns (AddClient s fd)"
      by (simp add: AddClient_def HttpConn_init_def Let_def)
    moreover have "conns (AddClient s fd) \<subseteq> conns (fst (DealListen MAX_FD (AddClient s fd) rest))"
      by (rule DealListen_conns_mono)
    ultimately show ?thesis using that assms by (auto simp: Let_def)
  qed
  have b: "DealListen MAX_FD s (fd # rest)
            = (s\<lparr>effects := effects s @ [Send fd ''Server busy!'', CloseFd fd]\<rparr>, rest)"
    if "userCount s \<ge> MAX_FD"
    using that assms by (simp add: SendError_def)
  show ?thesis using a b by (cases "userCount s < MAX_FD") auto
qed

theorem DealListen_admission_witness:
  "(0 :: int) < 7
   \<and> 7 \<in> conns (fst (DealListen 65536
        \<lparr>userCount = 65535, conns = {}, timeoutMS = 60000, listenEvent = 0, connEvent = 0,
         effects = []\<rparr> [7]))
   \<and> DealListen 65536
        \<lparr>userCount = 65536, conns = {}, timeoutMS = 60000, listenEvent = 0, connEvent = 0,
         effects = []\<rparr> [7]
      = (\<lparr>userCount = 65536, conns = {}, timeoutMS = 60000, listenEvent = 0, connEvent = 0,
          effects = [Send 7 ''Server busy!'', CloseFd 7]\<rparr>, [])"
  using DealListen_admission [of 7 "\<lparr>userCount = 65535, conns = {}, timeoutMS = 60000,
            listenEvent = 0, connEvent = 0, effects = []\<rparr>" 65536 "[]"]
    DealListen_admission [of 7 "\<lparr>userCount = 65536, conns = {}, timeoutMS = 60000,
            listenEvent = 0, connEvent = 0, effects = []\<rparr>" 65536 "[]"]
  by simp

section \<open>Properties of the HeapTimer\<close>

lemma parent_lt: "0 < j \<Longrightarrow> parent j < j"
  unfolding parent_def by arith

lemma parent_eq_iff: "0 < j \<Longrightarrow> parent j = i \<longleftrightarrow> j = 2 * i + 1 \<or> j = 2 * i + 2"
  unfolding parent_def by arith

lemma min_heap_iff: "min_heap h \<longleftrightarrow> heap_below h (length h)"
proof
  assume m: "min_heap h"
  show "heap_below h (length h)"
    unfolding heap_below_def
  proof (intro allI impI)
    fix j assume j: "0 < j \<and> j < length h"
    then have "j = 2 * parent j + 1 \<or> j = 2 * parent j + 2"
      using parent_eq_iff[of j "parent j"] by simp
    moreover have "parent j < length h" using parent_lt[of j] j by simp
    ultimately show "expires (h ! parent j) \<le> expires (h ! j)"
      using m j unfolding min_heap_def by metis
  qed
next
  assume b: "heap_below h (length h)"
  show "min_heap h"
    unfolding min_heap_def
  proof (intro allI impI conjI)
    fix i assume "i < length h" "2 * i + 1 < length h"
    then show "expires (h ! i) \<le> expires (h ! (2 * i + 1))"
      using b parent_eq_iff[of "2 * i + 1" i] unfolding heap_below_def by force
  next
    fix i assume "i < length h" "2 * i + 2 < length h"
    then show "expires (h ! i) \<le> expires (h ! (2 * i + 2))"
      using b parent_eq_iff[of "2 * i + 2" i] unfolding heap_below_def by force
  qed
qed

lemma heap_belowI:
  assumes "hole h n k" "down_ok h n k" "up_ok h k"
  shows "heap_below h n"
  using assms unfolding heap_below_def hole_def down_ok_def up_ok_def by metis

lemma heap_below_hole:
  assumes "heap_below h n"
  shows "hole h n k"
  unfolding hole_def
proof (intro conjI allI impI)
  fix j assume "0 < j \<and> j < n \<and> j \<noteq> k \<and> parent j \<noteq> k"
  then show "expires (h ! parent j) \<le> expires (h ! j)"
    using assms unfolding heap_below_def by simp
next
  fix j assume j: "0 < j \<and> j < n \<and> parent j = k \<and> 0 < k"
  then have "k < n" using parent_lt[of j] by simp
  with j have "expires (h ! parent k) \<le> expires (h ! k)"
    using assms unfolding heap_below_def by simp
  moreover from j have "expires (h ! k) \<le> expires (h ! j)"
    using assms unfolding heap_below_def by auto
  ultimately show "expires (h ! parent k) \<le> expires (h ! j)" by simp
qed

lemma heap_below_down_ok: "heap_below h n \<Longrightarrow> down_ok h n k"
  unfolding heap_below_def down_ok_def by auto

lemma heap_below_up_ok: "heap_below h n \<Longrightarrow> k < n \<Longrightarrow> up_ok h k"
  unfolding heap_below_def up_ok_def by auto

lemma swap_down:
  assumes h: "hole h n i" and n: "n \<le> length h" and j: "0 < j" "j < n" "parent j = i"
    and le: "expires (h ! j) \<le> expires (h ! i)"
    and mn: "\<forall>c. 0 < c \<and> c < n \<and> parent c = i \<longrightarrow> expires (h ! j) \<le> expires (h ! c)"
  shows "hole (h[i := h ! j, j := h ! i]) n j" and "up_ok (h[i := h ! j, j := h ! i]) j"
proof -
  let ?h = "h[i := h ! j, j := h ! i]"
  have ij: "i < j" using parent_lt[OF j(1)] j(3) by simp
  have len: "i < length h" "j < length h" using ij j n by auto
  have nth: "\<And>x. x < length h \<Longrightarrow> ?h ! x = (if x = j then h ! i else if x = i then h ! j else h ! x)"
    using len by (auto simp: nth_list_update)
  show "up_ok ?h j"
    using le j len ij by (simp add: up_ok_def nth)
  show "hole ?h n j"
    unfolding hole_def
  proof (intro conjI allI impI)
    fix x assume x: "0 < x \<and> x < n \<and> x \<noteq> j \<and> parent x \<noteq> j"
    then have xl: "x < length h" "parent x < length h" "parent x < x"
      using n parent_lt[of x] by auto
    consider (a) "x = i" | (b) "x \<noteq> i" "parent x = i" | (c) "x \<noteq> i" "parent x \<noteq> i" by blast
    then show "expires (?h ! parent x) \<le> expires (?h ! x)"
    proof cases
      case a
      then have "0 < i" using x by simp
      then have "expires (h ! parent i) \<le> expires (h ! j)"
        using h j unfolding hole_def by blast
      moreover have "parent i \<noteq> i" "parent i \<noteq> j" using xl a ij by auto
      ultimately show ?thesis using a xl x by (simp add: nth)
    next
      case b
      then have "expires (h ! j) \<le> expires (h ! x)" using mn x by blast
      then show ?thesis using b x xl by (simp add: nth)
    next
      case c
      then have "expires (h ! parent x) \<le> expires (h ! x)"
        using h x unfolding hole_def by blast
      then show ?thesis using c x xl by (simp add: nth)
    qed
  next
    fix x assume x: "0 < x \<and> x < n \<and> parent x = j \<and> 0 < j"
    then have xl: "x < length h" "j < x" using n parent_lt[of x] by auto
    then have "x \<noteq> i" "parent x \<noteq> i" using ij x by auto
    then have "expires (h ! j) \<le> expires (h ! x)"
      using h x unfolding hole_def by (metis)
    then show "expires (?h ! parent j) \<le> expires (?h ! x)"
      using x xl ij j len by (simp add: nth)
  qed
qed

lemma swap_up:
  assumes h: "hole h n i" and d: "down_ok h n i" and n: "n \<le> length h" and i: "0 < i" "i < n"
    and le: "expires (h ! i) \<le> expires (h ! parent i)"
  shows "hole (h[i := h ! parent i, parent i := h ! i]) n (parent i)"
    and "down_ok (h[i := h ! parent i, parent i := h ! i]) n (parent i)"
proof -
  define j where "j = parent i"
  let ?h = "h[i := h ! j, j := h ! i]"
  have ji: "j < i" using parent_lt[OF i(1)] by (simp add: j_def)
  have len: "i < length h" "j < length h" using ji i n by auto
  have nth: "\<And>x. x < length h \<Longrightarrow> ?h ! x = (if x = j then h ! i else if x = i then h ! j else h ! x)"
    using len by (auto simp: nth_list_update)
  have down: "down_ok ?h n j"
    unfolding down_ok_def
  proof (intro allI impI)
    fix x assume x: "0 < x \<and> x < n \<and> parent x = j"
    then have xl: "x < length h" "x \<noteq> j" using n parent_lt[of x] by auto
    show "expires (?h ! j) \<le> expires (?h ! x)"
    proof (cases "x = i")
      case True
      then show ?thesis using le len ji by (simp add: nth j_def)
    next
      case False
      then have "parent x \<noteq> i" using x ji by simp
      with False have "expires (h ! parent x) \<le> expires (h ! x)"
        using h x unfolding hole_def by blast
      then show ?thesis using False x xl le len by (simp add: nth j_def)
    qed
  qed
  have hl: "hole ?h n j"
    unfolding hole_def
  proof (intro conjI allI impI)
    fix x assume x: "0 < x \<and> x < n \<and> x \<noteq> j \<and> parent x \<noteq> j"
    then have xl: "x < length h" "parent x < length h" "parent x < x"
      using n parent_lt[of x] by auto
    have xi: "x \<noteq> i" using x by (auto simp: j_def)
    show "expires (?h ! parent x) \<le> expires (?h ! x)"
    proof (cases "parent x = i")
      case True
      then have "expires (h ! parent i) \<le> expires (h ! x)"
        using h x i unfolding hole_def by blast
      then show ?thesis using True x xl xi by (simp add: nth j_def)
    next
      case False
      then have "expires (h ! parent x) \<le> expires (h ! x)"
        using h x xi unfolding hole_def by blast
      then show ?thesis using False x xl xi by (simp add: nth)
    qed
  next
    fix x assume x: "0 < x \<and> x < n \<and> parent x = j \<and> 0 < j"
    then have xl: "x < length h" "x \<noteq> j" using n parent_lt[of x] by auto
    have pj: "parent j < j" "parent j \<noteq> i" using parent_lt[of j] x ji by auto
    have a: "expires (h ! parent j) \<le> expires (h ! j)"
      using h x ji i pj unfolding hole_def j_def by (metis less_trans nat_neq_iff)
    show "expires (?h ! parent j) \<le> expires (?h ! x)"
    proof (cases "x = i")
      case True
      then show ?thesis using a len pj ji by (simp add: nth)
    next
      case False
      then have "parent x \<noteq> i" using x ji by simp
      with False have "expires (h ! parent x) \<le> expires (h ! x)"
        using h x unfolding hole_def by blast
      then show ?thesis using a False x xl pj len by (simp add: nth)
    qed
  qed
  show "hole (h[i := h ! parent i, parent i := h ! i]) n (parent i)"
    using hl by (simp add: j_def)
  show "down_ok (h[i := h ! parent i, parent i := h ! i]) n (parent i)"
    using down by (simp add: j_def)
qed


lemma size_t_le:
  assumes "0 \<le> k"
  shows "size_t k \<le> nat k"
proof -
  have "k mod 2 ^ 64 \<le> k" using assms by (rule zmod_le_nonneg_dividend)
  then show ?thesis unfolding size_t_def by (rule nat_mono)
qed

lemma size_t_id: "0 \<le> k \<Longrightarrow> k < 2 ^ 64 \<Longrightarrow> size_t k = nat k"
  unfolding size_t_def by simp

lemma SwapNode_Inr:
  assumes "SwapNode t i j = Inr t'"
  shows "i < length (heap t)" "j < length (heap t)"
    "heap t' = (heap t)[i := heap t ! j, j := heap t ! i]"
    "ref t' = (ref t)(id_node (heap t' ! i) \<mapsto> i, id_node (heap t' ! j) \<mapsto> j)"
    "fired t' = fired t"
  using assms by (auto simp: SwapNode_def Let_def split: if_splits)

lemma siftup_parent:
  assumes "at h (size_t (int i - 1) div 2) = Inr x" "at h i = Inr y"
  shows "0 < i" "size_t (int i - 1) div 2 = parent i"
proof -
  show i: "0 < i"
    using assms(1) by (cases "i = 0") (auto simp: at_def size_t_def max_size_def)
  from assms(2) have "i < max_size" by (simp add: at_Inr)
  then have "size_t (int i - 1) = i - 1"
    using i by (simp add: size_t_id max_size_def)
  then show "size_t (int i - 1) div 2 = parent i" by (simp add: parent_def)
qed

lemma siftup_loop_heap:
  assumes "siftup_loop t i = Inr t'" "hole (heap t) n i" "down_ok (heap t) n i"
    "i < n" "n \<le> length (heap t)"
  shows "heap_below (heap t') n"
  using assms
proof (induction t i rule: siftup_loop.induct)
  case (1 t i)
  define j where "j = size_t (int i - 1) div 2"
  have "(case at (heap t) j of
           Inl e \<Rightarrow> Inl e
         | Inr hj \<Rightarrow>
             (case at (heap t) i of
                Inl e \<Rightarrow> Inl e
              | Inr hi \<Rightarrow>
                  if expires hj < expires hi then Inr t
                  else (case SwapNode t i j of Inl e \<Rightarrow> Inl e | Inr t1 \<Rightarrow> siftup_loop t1 j)))
        = Inr t'"
    using "1.prems"(1) unfolding siftup_loop.simps[of t i] j_def Let_def by simp
  then obtain hj hi where atj: "at (heap t) j = Inr hj" and ati: "at (heap t) i = Inr hi"
    and rest: "(if expires hj < expires hi then Inr t
                else (case SwapNode t i j of Inl e \<Rightarrow> Inl e | Inr t1 \<Rightarrow> siftup_loop t1 j)) = Inr t'"
    by (auto split: sum.splits)
  from siftup_parent[OF atj[unfolded j_def] ati] have i0: "0 < i" and jp: "j = parent i"
    by (auto simp: j_def)
  from atj ati have hj: "hj = heap t ! j" and hi: "hi = heap t ! i"
    by (auto simp: at_Inr)
  show ?case
  proof (cases "expires hj < expires hi")
    case True
    with rest have "t' = t" by simp
    moreover have "up_ok (heap t) i"
      using True hj hi jp by (simp add: up_ok_def)
    ultimately show ?thesis
      using heap_belowI[OF "1.prems"(2,3)] by simp
  next
    case False
    with rest obtain t1 where sw: "SwapNode t i j = Inr t1" and lp: "siftup_loop t1 j = Inr t'"
      by (auto split: sum.splits)
    have h1: "heap t1 = (heap t)[i := heap t ! parent i, parent i := heap t ! i]"
      using SwapNode_Inr(3)[OF sw] jp by simp
    have le: "expires (heap t ! i) \<le> expires (heap t ! parent i)"
      using False hj hi jp by simp
    have a: "hole (heap t1) n j" and b: "down_ok (heap t1) n j"
      using swap_up[OF "1.prems"(2,3,5) i0 "1.prems"(4) le] h1 jp by simp_all
    have c: "j < n" using parent_lt[OF i0] jp "1.prems"(4) by simp
    have d: "n \<le> length (heap t1)" using "1.prems"(5) h1 by simp
    show ?thesis
      using "1.IH"[OF j_def le0 atj ati False sw lp a b c d] .
  qed
qed

lemma smaller_child_min:
  assumes "smaller_child h j n = Inr j'" "j < n" "n \<le> length h"
  shows "j' < n" "j' = j \<or> j' = j + 1"
    "expires (h ! j') \<le> expires (h ! j)"
    "j + 1 < n \<longrightarrow> expires (h ! j') \<le> expires (h ! (j + 1))"
proof -
  show "j' < n" "j' = j \<or> j' = j + 1"
    using smaller_child_cases[OF assms(1,2)] by auto
  show "expires (h ! j') \<le> expires (h ! j)" "j + 1 < n \<longrightarrow> expires (h ! j') \<le> expires (h ! (j + 1))"
  proof -
    have s: "size_t (int j + 1) \<le> j + 1"
      using size_t_le[of "int j + 1"] by simp
    show "expires (h ! j') \<le> expires (h ! j)"
    proof (cases "size_t (int j + 1) < n")
      case False
      with assms show ?thesis by (simp add: smaller_child_def)
    next
      case True
      with assms(1) obtain hr hl where "at h (size_t (int j + 1)) = Inr hr" "at h j = Inr hl"
        "j' = (if expires hr < expires hl then size_t (int j + 1) else j)"
        by (auto simp: smaller_child_def split: sum.splits if_splits)
      then show ?thesis by (auto simp: at_Inr)
    qed
    show "j + 1 < n \<longrightarrow> expires (h ! j') \<le> expires (h ! (j + 1))"
    proof (cases "size_t (int j + 1) < n")
      case False
      with s show ?thesis by simp
    next
      case True
      with assms(1) obtain hr hl where r: "at h (size_t (int j + 1)) = Inr hr" and l: "at h j = Inr hl"
        and j': "j' = (if expires hr < expires hl then size_t (int j + 1) else j)"
        by (auto simp: smaller_child_def split: sum.splits if_splits)
      from l have "j < max_size" by (simp add: at_Inr)
      then have "size_t (int j + 1) = j + 1"
        by (simp add: size_t_id max_size_def)
      with r l j' show ?thesis by (auto simp: at_Inr)
    qed
  qed
qed

lemma siftdown_loop_heap:
  assumes "siftdown_loop t i n = Inr (t', i')" "hole (heap t) n i" "n \<le> length (heap t)"
  shows "(i' = i \<and> t' = t \<and> down_ok (heap t) n i) \<or> (i < i' \<and> heap_below (heap t') n)"
  using assms
proof (induction t i n arbitrary: t' i' rule: siftdown_loop.induct)
  case (1 t i n)
  define j where "j = size_t (int i * 2 + 1)"
  have jle: "j \<le> 2 * i + 1"
    using size_t_le[of "int i * 2 + 1"] by (simp add: j_def nat_add_distrib nat_mult_distrib)
  have unf: "(if j < n
       then (case smaller_child (heap t) j n of
               Inl e \<Rightarrow> Inl e
             | Inr j' \<Rightarrow>
                 (case at (heap t) i of
                    Inl e \<Rightarrow> Inl e
                  | Inr hi \<Rightarrow>
                      (case at (heap t) j' of
                         Inl e \<Rightarrow> Inl e
                       | Inr hj \<Rightarrow>
                           if expires hi < expires hj then Inr (t, i)
                           else (case SwapNode t i j' of
                                   Inl e \<Rightarrow> Inl e
                                 | Inr t1 \<Rightarrow> siftdown_loop t1 j' n))))
       else Inr (t, i)) = Inr (t', i')"
    using "1.prems"(1) unfolding siftdown_loop.simps[of t i n] j_def Let_def .
  show ?case
  proof (cases "j < n")
    case False
    with unf have eq: "t' = t" "i' = i" by simp_all
    have "down_ok (heap t) n i"
      unfolding down_ok_def
    proof (intro allI impI)
      fix c assume c: "0 < c \<and> c < n \<and> parent c = i"
      then have "c = 2 * i + 1 \<or> c = 2 * i + 2" using parent_eq_iff[of c i] by simp
      with False jle c have False by auto
      then show "expires (heap t ! i) \<le> expires (heap t ! c)" ..
    qed
    with eq show ?thesis by simp
  next
    case True
    with unf obtain j' hi hj where sc: "smaller_child (heap t) j n = Inr j'"
      and ati: "at (heap t) i = Inr hi" and atj: "at (heap t) j' = Inr hj"
      and rest: "(if expires hi < expires hj then Inr (t, i)
                  else (case SwapNode t i j' of Inl e \<Rightarrow> Inl e | Inr t1 \<Rightarrow> siftdown_loop t1 j' n))
                 = Inr (t', i')"
      by (auto split: sum.splits)
    from ati have "i < max_size" by (simp add: at_Inr)
    then have j: "j = 2 * i + 1" by (simp add: j_def left_child)
    note m = smaller_child_min[OF sc True "1.prems"(3)]
    have hi: "hi = heap t ! i" and hj: "hj = heap t ! j'"
      using ati atj by (auto simp: at_Inr)
    have pj: "0 < j'" "parent j' = i"
      using m(2) j parent_eq_iff[of j' i] by auto
    have mn: "\<forall>c. 0 < c \<and> c < n \<and> parent c = i \<longrightarrow> expires (heap t ! j') \<le> expires (heap t ! c)"
    proof (intro allI impI)
      fix c assume c: "0 < c \<and> c < n \<and> parent c = i"
      then have "c = j \<or> c = j + 1" using parent_eq_iff[of c i] j by auto
      then show "expires (heap t ! j') \<le> expires (heap t ! c)"
        using m(3,4) c by auto
    qed
    show ?thesis
    proof (cases "expires hi < expires hj")
      case True
      with rest have eq: "t' = t" "i' = i" by simp_all
      have "down_ok (heap t) n i"
        unfolding down_ok_def using mn True hi hj by fastforce
      with eq show ?thesis by simp
    next
      case False
      with rest obtain t1 where sw: "SwapNode t i j' = Inr t1"
        and lp: "siftdown_loop t1 j' n = Inr (t', i')"
        by (auto split: sum.splits)
      have h1: "heap t1 = (heap t)[i := heap t ! j', j' := heap t ! i]"
        using SwapNode_Inr(3)[OF sw] .
      have le: "expires (heap t ! j') \<le> expires (heap t ! i)"
        using False hi hj by simp
      have a: "hole (heap t1) n j'" and u: "up_ok (heap t1) j'"
        using swap_down[OF "1.prems"(2,3) pj(1) m(1) pj(2) le mn] h1 by simp_all
      have d: "n \<le> length (heap t1)" using "1.prems"(3) h1 by simp
      have ij: "i < j'" using parent_lt[OF pj(1)] pj(2) by simp
      from "1.IH"[OF j_def True sc ati atj False sw lp a d]
      show ?thesis
      proof
        assume "i' = j' \<and> t' = t1 \<and> down_ok (heap t1) n j'"
        then show ?thesis using heap_belowI[OF a _ u] ij by simp
      next
        assume "j' < i' \<and> heap_below (heap t') n"
        then show ?thesis using ij by simp
      qed
    qed
  qed
qed


lemma ref_ok_inj:
  assumes "ref_ok t" "a < length (heap t)" "b < length (heap t)"
    "id_node (heap t ! a) = id_node (heap t ! b)"
  shows "a = b"
proof -
  have "ref t (id_node (heap t ! a)) = Some a"
    using assms(1,2) unfolding ref_ok_def by blast
  moreover have "ref t (id_node (heap t ! b)) = Some b"
    using assms(1,3) unfolding ref_ok_def by blast
  ultimately show ?thesis using assms(4) by (metis option.inject)
qed

lemma ref_ok_distinct: "ref_ok t \<Longrightarrow> distinct (map id_node (heap t))"
  using ref_ok_inj[of t] by (auto simp: distinct_conv_nth)

lemma timer_inv_iff: "timer_inv t \<longleftrightarrow> heap_below (heap t) (length (heap t)) \<and> ref_ok t"
  using ref_ok_distinct[of t] by (auto simp: timer_inv_def min_heap_iff)

lemma SwapNode_ref_ok:
  assumes "ref_ok t" "SwapNode t i j = Inr t'"
  shows "ref_ok t'"
  unfolding ref_ok_def
proof (intro allI impI)
  fix x assume "x < length (heap t')"
  note s = SwapNode_Inr[OF assms(2)]
  let ?h = "heap t"
  have x: "x < length ?h" using \<open>x < length (heap t')\<close> s(3) by simp
  have nth: "\<And>y. y < length ?h \<Longrightarrow>
      heap t' ! y = (if y = j then ?h ! i else if y = i then ?h ! j else ?h ! y)"
    using s(1,2,3) by (auto simp: nth_list_update)
  have old: "\<And>y. y < length ?h \<Longrightarrow> ref t (id_node (?h ! y)) = Some y"
    using assms(1) unfolding ref_ok_def by simp
  have inj: "\<And>a b. a < length ?h \<Longrightarrow> b < length ?h \<Longrightarrow> id_node (?h ! a) = id_node (?h ! b) \<Longrightarrow> a = b"
    using ref_ok_inj[OF assms(1)] by blast
  consider (j) "x = j" | (i) "x = i" "x \<noteq> j" | (o) "x \<noteq> i" "x \<noteq> j" by blast
  then show "ref t' (id_node (heap t' ! x)) = Some x"
  proof cases
    case j
    then show ?thesis by (simp add: s(4))
  next
    case i
    then have "id_node (heap t' ! i) \<noteq> id_node (heap t' ! j)"
      using inj[of j i] s(1,2) by (auto simp: nth)
    with i show ?thesis by (simp add: s(4))
  next
    case o
    then have "id_node (heap t' ! x) \<noteq> id_node (heap t' ! j)" "id_node (heap t' ! x) \<noteq> id_node (heap t' ! i)"
      using inj[of x i] inj[of x j] s(1,2) x by (auto simp: nth)
    then show ?thesis using o x old[of x] by (simp add: s(4) nth)
  qed
qed

lemma siftup_loop_ref_ok:
  assumes "siftup_loop t i = Inr t'" "ref_ok t"
  shows "ref_ok t'"
  using assms
proof (induction t i rule: siftup_loop.induct)
  case (1 t i)
  define j where "j = size_t (int i - 1) div 2"
  have "(case at (heap t) j of
           Inl e \<Rightarrow> Inl e
         | Inr hj \<Rightarrow>
             (case at (heap t) i of
                Inl e \<Rightarrow> Inl e
              | Inr hi \<Rightarrow>
                  if expires hj < expires hi then Inr t
                  else (case SwapNode t i j of Inl e \<Rightarrow> Inl e | Inr t1 \<Rightarrow> siftup_loop t1 j)))
        = Inr t'"
    using "1.prems"(1) unfolding siftup_loop.simps[of t i] j_def Let_def by simp
  then obtain hj hi where atj: "at (heap t) j = Inr hj" and ati: "at (heap t) i = Inr hi"
    and rest: "(if expires hj < expires hi then Inr t
                else (case SwapNode t i j of Inl e \<Rightarrow> Inl e | Inr t1 \<Rightarrow> siftup_loop t1 j)) = Inr t'"
    by (auto split: sum.splits)
  show ?case
  proof (cases "expires hj < expires hi")
    case True
    with rest "1.prems"(2) show ?thesis by simp
  next
    case False
    with rest obtain t1 where sw: "SwapNode t i j = Inr t1" and lp: "siftup_loop t1 j = Inr t'"
      by (auto split: sum.splits)
    show ?thesis
      using "1.IH"[OF j_def le0 atj ati False sw lp SwapNode_ref_ok[OF "1.prems"(2) sw]] .
  qed
qed

lemma siftdown_loop_ref_ok:
  assumes "siftdown_loop t i n = Inr (t', i')" "ref_ok t"
  shows "ref_ok t'"
  using assms
proof (induction t i n arbitrary: t' i' rule: siftdown_loop.induct)
  case (1 t i n)
  define j where "j = size_t (int i * 2 + 1)"
  have unf: "(if j < n
       then (case smaller_child (heap t) j n of
               Inl e \<Rightarrow> Inl e
             | Inr j' \<Rightarrow>
                 (case at (heap t) i of
                    Inl e \<Rightarrow> Inl e
                  | Inr hi \<Rightarrow>
                      (case at (heap t) j' of
                         Inl e \<Rightarrow> Inl e
                       | Inr hj \<Rightarrow>
                           if expires hi < expires hj then Inr (t, i)
                           else (case SwapNode t i j' of
                                   Inl e \<Rightarrow> Inl e
                                 | Inr t1 \<Rightarrow> siftdown_loop t1 j' n))))
       else Inr (t, i)) = Inr (t', i')"
    using "1.prems"(1) unfolding siftdown_loop.simps[of t i n] j_def Let_def .
  show ?case
  proof (cases "j < n")
    case False
    with unf "1.prems"(2) show ?thesis by simp
  next
    case True
    with unf obtain j' hi hj where sc: "smaller_child (heap t) j n = Inr j'"
      and ati: "at (heap t) i = Inr hi" and atj: "at (heap t) j' = Inr hj"
      and rest: "(if expires hi < expires hj then Inr (t, i)
                  else (case SwapNode t i j' of Inl e \<Rightarrow> Inl e | Inr t1 \<Rightarrow> siftdown_loop t1 j' n))
                 = Inr (t', i')"
      by (auto split: sum.splits)
    show ?thesis
    proof (cases "expires hi < expires hj")
      case True
      with rest "1.prems"(2) show ?thesis by simp
    next
      case False
      with rest obtain t1 where sw: "SwapNode t i j' = Inr t1"
        and lp: "siftdown_loop t1 j' n = Inr (t', i')"
        by (auto split: sum.splits)
      show ?thesis
        using "1.IH"[OF j_def True sc ati atj False sw lp SwapNode_ref_ok[OF "1.prems"(2) sw]] .
    qed
  qed
qed

lemma hole_cong:
  assumes "hole h n k" "\<forall>x<n. x \<noteq> k \<longrightarrow> h' ! x = h ! x"
  shows "hole h' n k"
  unfolding hole_def
proof (intro conjI allI impI)
  fix j assume j: "0 < j \<and> j < n \<and> j \<noteq> k \<and> parent j \<noteq> k"
  then have "parent j < n" using parent_lt[of j] by simp
  with j assms(2) have "h' ! j = h ! j" "h' ! parent j = h ! parent j" by auto
  with assms(1) j show "expires (h' ! parent j) \<le> expires (h' ! j)"
    unfolding hole_def by simp
next
  fix j assume j: "0 < j \<and> j < n \<and> parent j = k \<and> 0 < k"
  then have "k < j" "parent k < k" using parent_lt[of j] parent_lt[of k] by auto
  with j assms(2) have "h' ! j = h ! j" "h' ! parent k = h ! parent k" by auto
  with assms(1) j show "expires (h' ! parent k) \<le> expires (h' ! j)"
    unfolding hole_def by simp
qed

lemma heap_below_mono: "heap_below h n \<Longrightarrow> m \<le> n \<Longrightarrow> heap_below h m"
  unfolding heap_below_def by auto

lemma heap_below_cong:
  assumes "heap_below h n" "\<forall>x<n. h' ! x = h ! x"
  shows "heap_below h' n"
  unfolding heap_below_def
proof (intro allI impI)
  fix j assume j: "0 < j \<and> j < n"
  then have "parent j < n" using parent_lt[of j] by simp
  with j assms(2) have "h' ! j = h ! j" "h' ! parent j = h ! parent j" by auto
  with assms(1) j show "expires (h' ! parent j) \<le> expires (h' ! j)"
    unfolding heap_below_def by simp
qed

text \<open>
  Sifting down from a hole and, if nothing moved, up again restores the order: the
  common part of \<^verbatim>\<open>add\<close> on a known id and of \<^verbatim>\<open>del_\<close>.
\<close>

lemma sift_both:
  assumes h: "hole (heap t1) n i" and n: "n \<le> length (heap t1)" and i: "i < n"
    and r: "ref_ok t1"
    and sd: "siftdown t1 i n = Inr (t2, moved)"
    and su: "(if \<not> moved then siftup t2 i else Inr t2) = Inr t3"
  shows "heap_below (heap t3) n \<and> ref_ok t3 \<and> length (heap t3) = length (heap t1)"
proof -
  from sd obtain i2 where lp: "siftdown_loop t1 i n = Inr (t2, i2)" and mv: "moved = (i < i2)"
    by (auto simp: siftdown_def split: if_splits sum.splits)
  note d = siftdown_loop_heap[OF lp h n]
  have r2: "ref_ok t2" using siftdown_loop_ref_ok[OF lp r] .
  have l2: "length (heap t2) = length (heap t1)" using siftdown_loop_length[OF lp] .
  show ?thesis
  proof (cases moved)
    case True
    with su have "t3 = t2" by simp
    moreover from True mv d have "heap_below (heap t2) n" by auto
    ultimately show ?thesis using r2 l2 by simp
  next
    case False
    with mv d have eq: "t2 = t1" and dk: "down_ok (heap t1) n i" by auto
    from False su have "siftup_loop t2 i = Inr t3"
      by (auto simp: siftup_def split: if_splits)
    then have lp3: "siftup_loop t1 i = Inr t3" using eq by simp
    show ?thesis
      using siftup_loop_heap[OF lp3 h dk i n] siftup_loop_ref_ok[OF lp3 r]
        siftup_loop_length[OF lp3] by simp
  qed
qed


lemma hole_last: "heap_below h n \<Longrightarrow> hole h (Suc n) n"
  unfolding hole_def heap_below_def
proof (intro conjI allI impI)
  fix j assume a: "\<forall>j. 0 < j \<and> j < n \<longrightarrow> expires (h ! parent j) \<le> expires (h ! j)"
    and "0 < j \<and> j < Suc n \<and> j \<noteq> n \<and> parent j \<noteq> n"
  then show "expires (h ! parent j) \<le> expires (h ! j)" by simp
next
  fix j assume "0 < j \<and> j < Suc n \<and> parent j = n \<and> 0 < n"
  then have False using parent_lt[of j] by auto
  then show "expires (h ! parent n) \<le> expires (h ! j)" ..
qed

lemma down_ok_last: "down_ok h (Suc n) n"
  unfolding down_ok_def
proof (intro allI impI)
  fix j assume "0 < j \<and> j < Suc n \<and> parent j = n"
  then have False using parent_lt[of j] by auto
  then show "expires (h ! n) \<le> expires (h ! j)" ..
qed

lemma add_inv:
  assumes inv: "timer_inv t" and ad: "add t tid ms c now = Inr t'"
  shows "timer_inv t'"
proof -
  from inv have hb: "heap_below (heap t) (length (heap t))" and r: "ref_ok t"
    by (simp_all add: timer_inv_iff)
  show ?thesis
  proof (cases "ref t tid")
    case None
    define i where "i = length (heap t)"
    define t1 where "t1 = t\<lparr>ref := (ref t)(tid \<mapsto> i),
        heap := heap t @ [\<lparr>id_node = tid, expires = now + MS ms, cb = c\<rparr>]\<rparr>"
    from ad None have su: "siftup t1 i = Inr t'"
      by (auto simp: add_def Let_def i_def t1_def split: if_splits)
    have len1: "length (heap t1) = Suc i" by (simp add: t1_def i_def)
    from su have lp: "siftup_loop t1 i = Inr t'"
      by (auto simp: siftup_def len1 split: if_splits)
    have "hole (heap t) (Suc i) i" using hole_last[OF hb] by (simp add: i_def)
    then have h1: "hole (heap t1) (Suc i) i"
      by (rule hole_cong) (auto simp: t1_def i_def nth_append)
    have r1: "ref_ok t1"
      unfolding ref_ok_def
    proof (intro allI impI)
      fix x assume x: "x < length (heap t1)"
      show "ref t1 (id_node (heap t1 ! x)) = Some x"
      proof (cases "x = i")
        case True
        then show ?thesis by (simp add: t1_def i_def)
      next
        case False
        with x len1 have xl: "x < length (heap t)" by (simp add: i_def)
        then have "ref t (id_node (heap t ! x)) = Some x" using r unfolding ref_ok_def by simp
        moreover from this None have "id_node (heap t ! x) \<noteq> tid" by auto
        ultimately show ?thesis using xl by (simp add: t1_def nth_append)
      qed
    qed
    have "heap_below (heap t') (Suc i)"
      using siftup_loop_heap[OF lp h1 down_ok_last] len1 by simp
    moreover have "length (heap t') = Suc i"
      using siftup_loop_length[OF lp] len1 by simp
    ultimately show ?thesis
      using siftup_loop_ref_ok[OF lp r1] by (simp add: timer_inv_iff)
  next
    case (Some i)
    with ad obtain nd where ati: "at (heap t) i = Inr nd"
      by (auto simp: add_def split: if_splits sum.splits)
    define t1 where "t1 = t\<lparr>heap := (heap t)[i := nd\<lparr>expires := now + MS ms, cb := c\<rparr>]\<rparr>"
    from ad Some ati obtain t2 moved where sd: "siftdown t1 i (length (heap t1)) = Inr (t2, moved)"
      and su: "(if \<not> moved then siftup t2 i else Inr t2) = Inr t'"
      by (auto simp: add_def Let_def t1_def split: if_splits sum.splits)
    from ati have il: "i < length (heap t)" and nd: "nd = heap t ! i" by (auto simp: at_Inr)
    have len1: "length (heap t1) = length (heap t)" by (simp add: t1_def)
    have h1: "hole (heap t1) (length (heap t1)) i"
      unfolding len1 by (rule hole_cong[OF heap_below_hole[OF hb]]) (simp add: t1_def)
    have r1: "ref_ok t1"
      using r il unfolding ref_ok_def by (auto simp: t1_def nd nth_list_update)
    from sift_both[OF h1 _ _ r1 sd su] il len1 show ?thesis
      by (simp add: timer_inv_iff)
  qed
qed

lemma del_inv:
  assumes inv: "timer_inv t" and dl: "del t i = Inr t'"
  shows "timer_inv t'"
proof -
  from inv have hb: "heap_below (heap t) (length (heap t))" and r: "ref_ok t"
    by (simp_all add: timer_inv_iff)
  define n where "n = length (heap t) - 1"
  from dl have ne: "heap t \<noteq> []" and il: "i < length (heap t)"
    by (auto simp: del_def split: if_splits)
  then have len: "length (heap t) = Suc n" and i_le: "i \<le> n" by (auto simp: n_def)
  from dl ne il obtain t3 where
    mid: "(if i < n
           then (case SwapNode t i n of
                   Inl e \<Rightarrow> Inl e
                 | Inr t1 \<Rightarrow>
                     (case siftdown t1 i n of
                        Inl e \<Rightarrow> Inl e
                      | Inr (t2, moved) \<Rightarrow> if \<not> moved then siftup t2 i else Inr t2))
           else Inr t) = Inr t3"
    and res: "t' = t3\<lparr>ref := (ref t3)(id_node (last (heap t3)) := None), heap := butlast (heap t3)\<rparr>"
    and ne3: "heap t3 \<noteq> []"
    by (auto simp: del_def Let_def n_def split: if_splits sum.splits)
  have t3: "heap_below (heap t3) n \<and> ref_ok t3 \<and> length (heap t3) = Suc n"
  proof (cases "i < n")
    case False
    with mid have "t3 = t" by simp
    then show ?thesis using heap_below_mono[OF hb, of n] r len by simp
  next
    case True
    with mid obtain t1 t2 moved where sw: "SwapNode t i n = Inr t1"
      and sd: "siftdown t1 i n = Inr (t2, moved)"
      and su: "(if \<not> moved then siftup t2 i else Inr t2) = Inr t3"
      by (auto split: sum.splits)
    note s = SwapNode_Inr[OF sw]
    have len1: "length (heap t1) = Suc n" using s(3) len by simp
    have "hole (heap t) n i" using heap_below_hole[OF heap_below_mono[OF hb, of n]] len by simp
    then have h1: "hole (heap t1) n i"
      by (rule hole_cong) (auto simp: s(3) nth_list_update)
    from sift_both[OF h1 _ True SwapNode_ref_ok[OF r sw] sd su] len1
    show ?thesis by simp
  qed
  then have hb3: "heap_below (heap t3) n" and r3: "ref_ok t3" and len3: "length (heap t3) = Suc n"
    by simp_all
  have hb': "heap_below (heap t') n"
    by (rule heap_below_cong[OF hb3]) (simp add: res nth_butlast len3)
  have len': "length (heap t') = n" by (simp add: res len3)
  have last3: "last (heap t3) = heap t3 ! n"
    using ne3 len3 by (simp add: last_conv_nth)
  have r': "ref_ok t'"
    unfolding ref_ok_def
  proof (intro allI impI)
    fix x assume "x < length (heap t')"
    then have x: "x < n" using len' by simp
    then have "ref t3 (id_node (heap t3 ! x)) = Some x"
      using r3 len3 unfolding ref_ok_def by simp
    moreover have "id_node (heap t3 ! x) \<noteq> id_node (heap t3 ! n)"
      using ref_ok_inj[OF r3, of x n] x len3 by auto
    ultimately show "ref t' (id_node (heap t' ! x)) = Some x"
      using x by (simp add: res nth_butlast len3 last3)
  qed
  show ?thesis using hb' r' len' by (simp add: timer_inv_iff)
qed

lemma timer_inv_fired: "timer_inv (t\<lparr>fired := f\<rparr>) = timer_inv t"
  by (simp add: timer_inv_def ref_ok_def)

lemma doWork_inv:
  assumes "timer_inv t" "doWork t tid = Inr t'"
  shows "timer_inv t'"
proof (cases "heap t = [] \<or> ref t tid = None")
  case True
  with assms show ?thesis by (auto simp: doWork_def split: if_splits)
next
  case False
  with assms(2) obtain i f where "del (t\<lparr>fired := f\<rparr>) i = Inr t'"
    by (auto simp: doWork_def split: if_splits sum.splits)
  then show ?thesis using del_inv[of "t\<lparr>fired := f\<rparr>" i t'] assms(1)
    by (simp add: timer_inv_fired)
qed

lemma pop_inv: "timer_inv t \<Longrightarrow> pop t = Inr t' \<Longrightarrow> timer_inv t'"
  by (auto simp: pop_def split: if_splits dest: del_inv)

lemma adjust_inv:
  assumes inv: "timer_inv t" and ex: "ref t tid = Some i"
    and later: "expires (heap t ! i) \<le> now + MS ms"
    and ad: "adjust t tid ms now = Inr t'"
  shows "timer_inv t'"
proof -
  from inv have hb: "heap_below (heap t) (length (heap t))" and r: "ref_ok t"
    by (simp_all add: timer_inv_iff)
  from ad ex obtain nd where ati: "at (heap t) i = Inr nd"
    by (auto simp: adjust_def split: if_splits sum.splits)
  define t1 where "t1 = t\<lparr>heap := (heap t)[i := nd\<lparr>expires := now + MS ms\<rparr>]\<rparr>"
  from ad ex ati obtain moved where sd: "siftdown t1 i (length (heap t1)) = Inr (t', moved)"
    by (auto simp: adjust_def Let_def t1_def split: if_splits sum.splits)
  from ati have il: "i < length (heap t)" and nd: "nd = heap t ! i" by (auto simp: at_Inr)
  have len1: "length (heap t1) = length (heap t)" by (simp add: t1_def)
  have h1: "hole (heap t1) (length (heap t1)) i"
    unfolding len1 by (rule hole_cong[OF heap_below_hole[OF hb]]) (simp add: t1_def)
  have r1: "ref_ok t1"
    using r il unfolding ref_ok_def by (auto simp: t1_def nd nth_list_update)
  have u1: "up_ok (heap t1) i"
  proof -
    have "up_ok (heap t) i" using heap_below_up_ok[OF hb il] .
    moreover have "0 < i \<Longrightarrow> parent i \<noteq> i" using parent_lt[of i] by simp
    ultimately show ?thesis using later il by (auto simp: up_ok_def t1_def nd)
  qed
  from sd obtain i2 where lp: "siftdown_loop t1 i (length (heap t1)) = Inr (t', i2)"
    by (auto simp: siftdown_def split: if_splits sum.splits)
  from siftdown_loop_heap[OF lp h1] have "heap_below (heap t') (length (heap t1))"
    using heap_belowI[OF h1 _ u1] by auto
  then show ?thesis
    using siftdown_loop_ref_ok[OF lp r1] siftdown_loop_length[OF lp]
    by (simp add: timer_inv_iff)
qed

lemma tick_loop_inv:
  assumes "tick_loop clk k t = Inr (k', t')" "timer_inv t"
  shows "timer_inv t'"
  using assms
proof (induction clk k t rule: tick_loop.induct)
  case (1 clk k t)
  show ?case
  proof (cases "heap t")
    case Nil
    with "1.prems" show ?thesis by (simp add: tick_loop.simps[of clk k t])
  next
    case (Cons node rest)
    show ?thesis
    proof (cases "duration_cast_MS (expires node - clk k) > 0")
      case True
      with Cons "1.prems" show ?thesis by (simp add: tick_loop.simps[of clk k t])
    next
      case False
      with Cons "1.prems"(1) obtain t1 where p: "pop (t\<lparr>fired := fired t @ [cb node]\<rparr>) = Inr t1"
        and lp: "tick_loop clk (Suc k) t1 = Inr (k', t')"
        by (auto simp: tick_loop.simps[of clk k t] split: sum.splits)
      have "timer_inv t1"
        using pop_inv[OF _ p] "1.prems"(2) by (simp add: timer_inv_fired)
      then show ?thesis using "1.IH"[OF Cons False p lp] by simp
    qed
  qed
qed

lemma tick_inv: "timer_inv t \<Longrightarrow> tick clk k t = Inr (k', t') \<Longrightarrow> timer_inv t'"
  by (auto simp: tick_def split: if_splits dest: tick_loop_inv)


lemmas timer_eval = add_def adjust_def doWork_def pop_def del_def tick_def tick_loop.simps
  siftup_def siftdown_def siftup_loop.simps siftdown_loop.simps smaller_child_def SwapNode_def
  at_def size_t_def max_size_def MS_def duration_cast_MS_def signed_divide_int_def Let_def

lemmas inv_eval = timer_inv_def min_heap_def ref_ok_def All_less_Suc

text \<open>
  Every run of \<^verbatim>\<open>add\<close>, \<^verbatim>\<open>adjust\<close>, \<^verbatim>\<open>doWork\<close>, \<^verbatim>\<open>pop\<close> or \<^verbatim>\<open>tick\<close> that
  returns, from a state that satisfies the invariant, leaves a state that satisfies it,
  provided \<^verbatim>\<open>adjust\<close> does not move a deadline to an earlier time. Nothing is said
  here of the runs that do not return, nor of \<^verbatim>\<open>adjust\<close> to an earlier deadline.
\<close>

lemma completed_operations_preserve_invariant:
  assumes "timer_inv t"
  shows "(add t tid ms c now = Inr t' \<longrightarrow> timer_inv t')
       \<and> (ref t tid = Some i \<and> expires (heap t ! i) \<le> now + MS ms
            \<and> adjust t tid ms now = Inr t' \<longrightarrow> timer_inv t')
       \<and> (doWork t tid = Inr t' \<longrightarrow> timer_inv t')
       \<and> (pop t = Inr t' \<longrightarrow> timer_inv t')
       \<and> (tick clk k t = Inr (k', t') \<longrightarrow> timer_inv t')"
  using assms add_inv[of t tid ms c now t'] adjust_inv[of t tid i now ms t']
    doWork_inv[of t tid t'] pop_inv[of t t'] tick_inv[of t clk k k' t']
  by blast

text \<open>
  Two timers with deadlines 10 ms and 20 ms satisfy the invariant; the state that
  \<^verbatim>\<open>adjust(2, 5)\<close> at time 0 leaves does not.
\<close>

lemma adjust_example_invariant:
  "timer_inv \<lparr>heap = [\<lparr>id_node = 1, expires = 10000000, cb = ()\<rparr>,
                     \<lparr>id_node = 2, expires = 20000000, cb = ()\<rparr>],
             ref = [1 \<mapsto> 0, 2 \<mapsto> 1], fired = []\<rparr>
   \<and> \<not> timer_inv \<lparr>heap = [\<lparr>id_node = 1, expires = 10000000, cb = ()\<rparr>,
                         \<lparr>id_node = 2, expires = 5000000, cb = ()\<rparr>],
                 ref = [1 \<mapsto> 0, 2 \<mapsto> 1], fired = []\<rparr>"
  by (simp add: inv_eval)

text \<open>
  C1. The heap holds the timers 1 and 2 with deadlines 10 ms and 20 ms, and satisfies
  the invariant (\<open>adjust_example_invariant\<close>). \<^verbatim>\<open>adjust(2, 5)\<close> at time 0 finds id 2,
  sets its deadline to 5 ms and sifts down only: the node stays at index 1, below a
  root that expires later, and the min-heap order is lost. On the same heap \<^verbatim>\<open>pop\<close>
  and \<^verbatim>\<open>add\<close> of a timer due before the root reach \<^verbatim>\<open>siftup_\<close> at index 0, which
  reads outside the vector, so they yield no state at all.
\<close>

theorem adjust_breaks_heap_order:
  "adjust \<lparr>heap = [\<lparr>id_node = 1, expires = 10000000, cb = ()\<rparr>,
                  \<lparr>id_node = 2, expires = 20000000, cb = ()\<rparr>],
          ref = [1 \<mapsto> 0, 2 \<mapsto> 1], fired = []\<rparr> 2 5 0
     = Inr \<lparr>heap = [\<lparr>id_node = 1, expires = 10000000, cb = ()\<rparr>,
                     \<lparr>id_node = 2, expires = 5000000, cb = ()\<rparr>],
             ref = [1 \<mapsto> 0, 2 \<mapsto> 1], fired = []\<rparr>
   \<and> expires ([\<lparr>id_node = 1, expires = 10000000, cb = ()\<rparr>,
               \<lparr>id_node = 2, expires = 5000000, cb = ()\<rparr>] ! 1)
       < expires ([\<lparr>id_node = 1, expires = 10000000, cb = ()\<rparr>,
                   \<lparr>id_node = 2, expires = 5000000, cb = ()\<rparr>] ! 0)
   \<and> pop \<lparr>heap = [\<lparr>id_node = 1, expires = 10000000, cb = ()\<rparr>,
                  \<lparr>id_node = 2, expires = 20000000, cb = ()\<rparr>],
          ref = [1 \<mapsto> 0, 2 \<mapsto> 1], fired = []\<rparr> = Inl OutOfBounds
   \<and> add \<lparr>heap = [\<lparr>id_node = 1, expires = 10000000, cb = ()\<rparr>,
                  \<lparr>id_node = 2, expires = 20000000, cb = ()\<rparr>],
          ref = [1 \<mapsto> 0, 2 \<mapsto> 1], fired = []\<rparr> 3 1 () 0 = Inl OutOfBounds"
  by (simp add: timer_eval)

lemma one_timer_inv:
  "timer_inv \<lparr>heap = [\<lparr>id_node = 5, expires = 100, cb = ()\<rparr>], ref = [5 \<mapsto> 0], fired = []\<rparr>"
  by (simp add: inv_eval)

text \<open>
  C2. \<^verbatim>\<open>siftup_\<close> at the root of a heap with one node: the parent index is computed
  in \<^verbatim>\<open>size_t\<close>, so \<open>(0 - 1) / 2\<close> is \<open>2^63 - 1\<close>, the loop condition \<open>j >= 0\<close> holds,
  and \<^verbatim>\<open>heap_[j]\<close> is read far outside the vector. The state satisfies the
  invariant (\<open>one_timer_inv\<close>) and the index is in range. \<^verbatim>\<open>add\<close> of the first timer
  takes the same path.
\<close>

theorem siftup_root_out_of_bounds:
  "siftup \<lparr>heap = [\<lparr>id_node = 5, expires = 100, cb = ()\<rparr>], ref = [5 \<mapsto> 0], fired = []\<rparr> 0
     = Inl OutOfBounds
   \<and> size_t (int 0 - 1) div 2 = 9223372036854775807
   \<and> add \<lparr>heap = [], ref = Map.empty, fired = []\<rparr> 5 1000 () 0 = Inl OutOfBounds"
  by (simp add: add_def siftup_def siftup_loop.simps size_t_def at_def max_size_def)

text \<open>
  C4. The heap holds one timer that expires 2 ms after the reading \<^verbatim>\<open>tick\<close> takes, so
  \<^verbatim>\<open>tick\<close> leaves it; the reading \<^verbatim>\<open>GetNextTick\<close> then takes is 10 ms later. The
  difference of -8 ms is stored in a \<^verbatim>\<open>size_t\<close>, the test \<open>res < 0\<close> never holds, and
  the conversion to \<^verbatim>\<open>int\<close> returns -8.
\<close>

theorem GetNextTick_negative:
  "GetNextTick (\<lambda>k. if k = 0 then 0 else 10000000)
     \<lparr>heap = [\<lparr>id_node = 5, expires = 2000000, cb = ()\<rparr>], ref = [5 \<mapsto> 0], fired = []\<rparr>
   = Inr (- 8, \<lparr>heap = [\<lparr>id_node = 5, expires = 2000000, cb = ()\<rparr>], ref = [5 \<mapsto> 0], fired = []\<rparr>)"
  by (simp add: GetNextTick_def tick_def tick_loop.simps duration_cast_MS_def size_t_def
      signed_divide_int_def)

end
